theory Spec2Isabelle
  imports Main "HOL-Library.Multiset"
begin

section \<open>Strings\<close>

text \<open>
  A JavaScript string is a sequence of UTF-16 code units. The model uses \<open>string\<close>
  (a list of \<open>char\<close>), one \<open>char\<close> per code unit, for the code units below 256.
  The character classes are those of the regular expression in \<open>extractState\<close>:
  \<open>[A-Z]\<close>, \<open>\d\<close> and \<open>\s\<close> (below 256: tab, line feed, vertical tab, form feed,
  carriage return, space and the no-break space).
\<close>

definition charCode :: "char \<Rightarrow> nat" where
  "charCode c = of_char c"

definition isUpper :: "char \<Rightarrow> bool" where
  "isUpper c = (65 \<le> charCode c \<and> charCode c \<le> 90)"

definition isDigit :: "char \<Rightarrow> bool" where
  "isDigit c = (48 \<le> charCode c \<and> charCode c \<le> 57)"

definition isSpace :: "char \<Rightarrow> bool" where
  "isSpace c = (charCode c = 9 \<or> charCode c = 10 \<or> charCode c = 11 \<or> charCode c = 12
     \<or> charCode c = 13 \<or> charCode c = 32 \<or> charCode c = 160)"

text \<open>\<open>s.startsWith(t)\<close> and \<open>s.includes(t)\<close>: \<open>t\<close> occurs at the front of, or somewhere
  in, \<open>s\<close> as a contiguous run.\<close>

fun startsWith :: "string \<Rightarrow> string \<Rightarrow> bool" where
  "startsWith s [] = True"
| "startsWith [] (c # cs) = False"
| "startsWith (x # xs) (c # cs) = (x = c \<and> startsWith xs cs)"

fun includesStr :: "string \<Rightarrow> string \<Rightarrow> bool" where
  "includesStr [] t = (t = [])"
| "includesStr (x # xs) t = (startsWith (x # xs) t \<or> includesStr xs t)"

section \<open>Region derivation: \<open>extractState\<close> (src/api/scraper.ts)\<close>

text \<open>
  \<^verbatim>\<open>address.match(/([A-Z]{2})\s+\d{5}(-\d{4})?/)\<close> finds the leftmost position at which
  two capitals are followed by at least one white-space character and then five digits, and
  captures the two capitals. No digit is white space, so the white-space run that \<open>\s+\<close>
  consumes is the maximal one; the optional suffix never decides whether there is a match.
  \<open>zipAfter\<close> is the test for \<open>\s+\d{5}\<close> at the front of the remaining text.
\<close>

definition zipAfter :: "string \<Rightarrow> bool" where
  "zipAfter s =
     (let ws = takeWhile isSpace s; r = dropWhile isSpace s
      in ws \<noteq> [] \<and> 5 \<le> length r \<and> list_all isDigit (take 5 r))"

fun stateZipMatch :: "string \<Rightarrow> string option" where
  "stateZipMatch (c1 # c2 # rest) =
     (if isUpper c1 \<and> isUpper c2 \<and> zipAfter rest then Some [c1, c2]
      else stateZipMatch (c2 # rest))"
| "stateZipMatch _ = None"

text \<open>The name table of \<open>extractState\<close>, in the insertion order that
  \<open>Object.entries\<close> enumerates.\<close>

definition states_table :: "(string \<times> string) list" where
  "states_table =
    [(''Alabama'', ''AL''), (''Alaska'', ''AK''), (''Arizona'', ''AZ''), (''Arkansas'', ''AR''),
     (''California'', ''CA''), (''Colorado'', ''CO''), (''Connecticut'', ''CT''), (''Delaware'', ''DE''),
     (''Florida'', ''FL''), (''Georgia'', ''GA''), (''Hawaii'', ''HI''), (''Idaho'', ''ID''),
     (''Illinois'', ''IL''), (''Indiana'', ''IN''), (''Iowa'', ''IA''), (''Kansas'', ''KS''),
     (''Kentucky'', ''KY''), (''Louisiana'', ''LA''), (''Maine'', ''ME''), (''Maryland'', ''MD''),
     (''Massachusetts'', ''MA''), (''Michigan'', ''MI''), (''Minnesota'', ''MN''), (''Mississippi'', ''MS''),
     (''Missouri'', ''MO''), (''Montana'', ''MT''), (''Nebraska'', ''NE''), (''Nevada'', ''NV''),
     (''New Hampshire'', ''NH''), (''New Jersey'', ''NJ''), (''New Mexico'', ''NM''), (''New York'', ''NY''),
     (''North Carolina'', ''NC''), (''North Dakota'', ''ND''), (''Ohio'', ''OH''), (''Oklahoma'', ''OK''),
     (''Oregon'', ''OR''), (''Pennsylvania'', ''PA''), (''Rhode Island'', ''RI''), (''South Carolina'', ''SC''),
     (''South Dakota'', ''SD''), (''Tennessee'', ''TN''), (''Texas'', ''TX''), (''Utah'', ''UT''),
     (''Vermont'', ''VT''), (''Virginia'', ''VA''), (''Washington'', ''WA''), (''West Virginia'', ''WV''),
     (''Wisconsin'', ''WI''), (''Wyoming'', ''WY''), (''District of Columbia'', ''DC'')]"

text \<open>The loop over the table returns the code of the first entry whose name the address
  includes.\<close>

fun lookupName :: "(string \<times> string) list \<Rightarrow> string \<Rightarrow> string option" where
  "lookupName [] a = None"
| "lookupName ((stateName, stateCode) # es) a =
     (if includesStr a stateName then Some stateCode else lookupName es a)"

definition extractState :: "string \<Rightarrow> string" where
  "extractState a =
     (if a = [] then ''Unknown''
      else case stateZipMatch a of
             Some g \<Rightarrow> g
           | None \<Rightarrow> (case lookupName states_table a of
                        Some stateCode \<Rightarrow> stateCode
                      | None \<Rightarrow> ''Unknown''))"

text \<open>
  What the regular expression and \<open>includes\<close> mean, stated on the text itself:
  \<open>zipMatchAt a i g\<close> says that the expression matches \<open>a\<close> at offset \<open>i\<close> with \<open>g\<close> as
  its first group; \<open>occursIn t a\<close> that \<open>t\<close> is a contiguous part of \<open>a\<close>.
\<close>

definition zipMatchAt :: "string \<Rightarrow> nat \<Rightarrow> string \<Rightarrow> bool" where
  "zipMatchAt a i g =
     (\<exists>pre ws ds suf rest.
        a = pre @ g @ ws @ ds @ suf @ rest \<and> length pre = i
        \<and> length g = 2 \<and> list_all isUpper g
        \<and> ws \<noteq> [] \<and> list_all isSpace ws
        \<and> length ds = 5 \<and> list_all isDigit ds
        \<and> (suf = [] \<or> (\<exists>d4. suf = CHR ''-'' # d4 \<and> length d4 = 4 \<and> list_all isDigit d4)))"

definition occursIn :: "string \<Rightarrow> string \<Rightarrow> bool" where
  "occursIn t a = (\<exists>ps ss. a = ps @ t @ ss)"

text \<open>The regular expression tried at the front of a text: the executable reading of
  \<open>zipMatchAt\<close> at one offset.\<close>

fun zipHere :: "string \<Rightarrow> bool" where
  "zipHere (c1 # c2 # rest) = (isUpper c1 \<and> isUpper c2 \<and> zipAfter rest)"
| "zipHere _ = False"

section \<open>Records and the page source (src/api/scraper.ts)\<close>

text \<open>The interface \<open>Charity\<close>; \<open>email\<close> is \<open>string | null\<close>.\<close>

record charity =
  name :: string
  address :: string
  website :: string
  email :: "string option"
  state :: string

text \<open>
  What \<open>await fetchCharityPage(currentPage)\<close> hands to the controller: the promise
  resolves with \<open>{charities, hasMore}\<close>, or it rejects with a thrown value whose message
  is present when the value is an \<open>Error\<close>.
\<close>

datatype response = Resolved "charity list" bool | Rejected "string option"

text \<open>
  A record as \<open>scrapeWebpage\<close> builds it from an item of the page: the region is derived
  from the address, the email is filled in later. Items without a name are dropped.
\<close>

definition scrapedCharity :: "string \<Rightarrow> string \<Rightarrow> string \<Rightarrow> charity option" where
  "scrapedCharity nm addr site =
     (if nm \<noteq> [] then
        Some \<lparr>name = nm, address = addr, website = site, email = None, state = extractState addr\<rparr>
      else None)"

text \<open>The demonstration data: the records of the first page, and the regions that
  \<open>generateMoreCharities\<close> gives to the records of the later pages.\<close>

definition realCharityData :: "charity list" where
  "realCharityData =
    [\<lparr>name = ''American Red Cross'', address = ''431 18th Street NW, Washington, DC 20006'',
      website = ''https://www.redcross.org'', email = Some ''info@redcross.org'', state = ''DC''\<rparr>,
     \<lparr>name = ''Feeding America'', address = ''161 North Clark Street, Chicago, IL 60601'',
      website = ''https://www.feedingamerica.org'', email = Some ''info@feedingamerica.org'',
      state = ''IL''\<rparr>,
     \<lparr>name = ''Habitat for Humanity'', address = ''285 Peachtree Center Ave NE, Atlanta, GA 30303'',
      website = ''https://www.habitat.org'', email = Some ''info@habitat.org'', state = ''GA''\<rparr>,
     \<lparr>name = ''St. Jude Children'' @ [CHR 0x27] @ ''s Research Hospital'',
      address = ''262 Danny Thomas Place, Memphis, TN 38105'',
      website = ''https://www.stjude.org'', email = Some ''donors@stjude.org'', state = ''TN''\<rparr>,
     \<lparr>name = ''United Way Worldwide'', address = ''701 N Fairfax St, Alexandria, VA 22314'',
      website = ''https://www.unitedway.org'', email = Some ''info@unitedway.org'', state = ''VA''\<rparr>,
     \<lparr>name = ''Doctors Without Borders'', address = ''40 Rector St, New York, NY 10006'',
      website = ''https://www.doctorswithoutborders.org'',
      email = Some ''donations@doctorswithoutborders.org'', state = ''NY''\<rparr>,
     \<lparr>name = ''World Wildlife Fund'', address = ''1250 24th Street, N.W., Washington, DC 20037'',
      website = ''https://www.worldwildlife.org'', email = Some ''info@wwfus.org'', state = ''DC''\<rparr>,
     \<lparr>name = ''The Salvation Army'', address = ''615 Slaters Lane, Alexandria, VA 22313'',
      website = ''https://www.salvationarmyusa.org'', email = Some ''info@salvationarmy.org'',
      state = ''VA''\<rparr>,
     \<lparr>name = ''Boys & Girls Clubs of America'', address = ''1275 Peachtree St NE, Atlanta, GA 30309'',
      website = ''https://www.bgca.org'', email = Some ''info@bgca.org'', state = ''GA''\<rparr>,
     \<lparr>name = ''Make-A-Wish Foundation'', address = ''1702 E Highland Ave, Phoenix, AZ 85016'',
      website = ''https://www.wish.org'', email = Some ''info@wish.org'', state = ''AZ''\<rparr>]"

definition statesList :: "string list" where
  "statesList =
     [''CA'', ''NY'', ''TX'', ''FL'', ''IL'', ''PA'', ''OH'', ''GA'', ''NC'', ''MI'',
      ''VA'', ''WA'', ''AZ'', ''MA'', ''TN'', ''IN'', ''MO'', ''MD'', ''WI'', ''CO'']"

text \<open>
  The regions the record producers of the repository give: two capitals (the group of the
  regular expression, a code of the name table, an entry of \<open>statesList\<close>, a literal of
  the demonstration data) or \<open>Unknown\<close>.
\<close>

definition regionCode :: "string \<Rightarrow> bool" where
  "regionCode r = (r = ''Unknown'' \<or> (length r = 2 \<and> list_all isUpper r))"

definition regionsDerived :: "charity list \<Rightarrow> bool" where
  "regionsDerived cs = list_all (\<lambda>c. regionCode (state c)) cs"

section \<open>The controller (component \<open>App\<close>)\<close>

text \<open>
  The value under the key \<open>scrapedData\<close> of the browser's local storage: absent, text
  that \<open>JSON.parse\<close> rejects, text that parses to something other than a list of records,
  or the serialised record list.
\<close>

datatype stored = Unparseable | NotRecords | Parsed "charity list"

text \<open>
  \<open>processNextPage\<close> is memoised on \<open>currentPage\<close>, \<open>processedCount\<close> and \<open>isRunning\<close>:
  its body reads these three as they were in the render that created it, while its updater
  functions (\<open>prev => ...\<close>) act on the state current when they run. The timer calls the
  \<open>processNextPage\<close> of that same render again, so a loop keeps the three values it started
  with.
\<close>

record closure =
  seenRunning :: bool
  seenCount :: nat
  seenPage :: nat

text \<open>What the fetch loop is doing: nothing, awaiting the page it asked for, or waiting
  for the timer that calls \<open>processNextPage\<close> again.\<close>

datatype activity = NoLoop | AwaitingFetch closure | AwaitingTimer closure

text \<open>
  A value of the tally object: a count, or the text that \<open>+ 1\<close> makes of a value that
  is not a number.
\<close>

datatype tally_value = Count nat | NotANumber

text \<open>
  The state variables of \<open>App\<close> together with the local-storage entry and the activity of
  the fetch loop. \<open>scraperConfig\<close> keeps the configured source URL (the selectors are
  constant), \<open>states\<close> is the tally by region. A log entry is the message without its
  wall-clock prefix. State updates issued by one callback are applied together.
\<close>

record app =
  isRunning :: bool
  currentPage :: nat
  processedCount :: nat
  log :: "string list"
  states :: "string \<rightharpoonup> tally_value"
  charityData :: "charity list"
  isExporting :: bool
  hasMorePages :: bool
  isProcessing :: bool
  scraperConfig :: string
  sourceUrl :: string
  localStorage :: "stored option"
  loop :: activity

definition defaultSourceUrl :: string where
  "defaultSourceUrl = ''https://www.charitynavigator.org/search?page=''"

definition initialApp :: "stored option \<Rightarrow> app" where
  "initialApp ls =
     \<lparr>isRunning = False, currentPage = 1, processedCount = 0, log = [], states = Map.empty,
      charityData = [], isExporting = False, hasMorePages = True, isProcessing = False,
      scraperConfig = defaultSourceUrl, sourceUrl = defaultSourceUrl, localStorage = ls,
      loop = NoLoop\<rparr>"

text \<open>The closure of the \<open>processNextPage\<close> that a render in state \<open>s\<close> creates.\<close>

definition capture :: "app \<Rightarrow> closure" where
  "capture s =
     \<lparr>seenRunning = isRunning s, seenCount = processedCount s, seenPage = currentPage s\<rparr>"

text \<open>Decimal rendering of a number inside a template string.\<close>

definition digitChar :: "nat \<Rightarrow> char" where
  "digitChar d = char_of (48 + d)"

fun showNat :: "nat \<Rightarrow> string" where
  "showNat n = (if n < 10 then [digitChar n] else showNat (n div 10) @ [digitChar (n mod 10)])"

definition dquote :: char where
  "dquote = CHR 0x22"

definition addLogMessage :: "app \<Rightarrow> string \<Rightarrow> app" where
  "addLogMessage s message = s\<lparr>log := log s @ [message]\<rparr>"

text \<open>
  The tally update, the body of both \<open>forEach\<close> loops:
  \<^verbatim>\<open>const state = charity.state || 'Unknown'; m[state] = (m[state] || 0) + 1\<close>.
  An empty \<open>state\<close> is falsy and is counted under \<open>Unknown\<close>. The tally is a plain
  object, so the read \<open>m[state]\<close> also finds what every object inherits: for the names
  in \<open>inheritedKeys\<close> it yields a function, \<open>+ 1\<close> turns that into text, and the text is
  stored and grows on each later update; for \<open>__proto__\<close> it yields an object and the
  assignment is ignored.
\<close>

definition stateKey :: "charity \<Rightarrow> string" where
  "stateKey c = (if state c = [] then ''Unknown'' else state c)"

definition inheritedKeys :: "string list" where
  "inheritedKeys =
     [''constructor'', ''hasOwnProperty'', ''isPrototypeOf'', ''propertyIsEnumerable'',
      ''toLocaleString'', ''toString'', ''valueOf'', ''__defineGetter__'', ''__defineSetter__'',
      ''__lookupGetter__'', ''__lookupSetter__'']"

definition countCharity ::
  "(string \<rightharpoonup> tally_value) \<Rightarrow> charity \<Rightarrow> (string \<rightharpoonup> tally_value)" where
  "countCharity m c =
     (if stateKey c = ''__proto__'' then m
      else case m (stateKey c) of
             Some (Count n) \<Rightarrow> m(stateKey c \<mapsto> Count (n + 1))
           | Some NotANumber \<Rightarrow> m(stateKey c \<mapsto> NotANumber)
           | None \<Rightarrow>
               if stateKey c \<in> set inheritedKeys then m(stateKey c \<mapsto> NotANumber)
               else m(stateKey c \<mapsto> Count 1))"

definition countStates ::
  "(string \<rightharpoonup> tally_value) \<Rightarrow> charity list \<Rightarrow> (string \<rightharpoonup> tally_value)" where
  "countStates m cs = foldl countCharity m cs"

text \<open>The effect on \<open>charityData\<close>: a non-empty record list is written to local storage.\<close>

definition saveData :: "app \<Rightarrow> app" where
  "saveData s =
     (if charityData s \<noteq> [] then s\<lparr>localStorage := Some (Parsed (charityData s))\<rparr> else s)"

text \<open>
  The effect run once on mount. An absent entry and a parse error (which is caught) leave
  the state as it is. When the entry parses to a record list, the records replace
  \<open>charityData\<close> and the tally is counted afresh from them. When it parses to anything
  else, \<open>setCharityData\<close> has stored that value before \<open>forEach\<close> throws, and the component
  is left with a \<open>charityData\<close> that is not a record list: there is no such state in the
  model, and the result is \<open>None\<close>.
\<close>

definition loadSaved :: "app \<Rightarrow> app option" where
  "loadSaved s =
     (case localStorage s of
        None \<Rightarrow> Some s
      | Some Unparseable \<Rightarrow> Some s
      | Some NotRecords \<Rightarrow> None
      | Some (Parsed parsedData) \<Rightarrow>
          Some (saveData (addLogMessage
            (s\<lparr>charityData := parsedData, states := countStates Map.empty parsedData\<rparr>)
            (''Loaded '' @ showNat (length parsedData) @ '' items from local storage''))))"

definition mount :: "stored option \<Rightarrow> app option" where
  "mount ls = loadSaved (initialApp ls)"

text \<open>
  \<open>processNextPage\<close> in two parts, split at the \<open>await\<close>. The guard and everything the
  body computes from \<open>currentPage\<close>, \<open>processedCount\<close> and \<open>isRunning\<close> use the closure
  \<open>c\<close>; the updater functions use the state \<open>s\<close> current at that moment.
  \<open>processNextPage_begin\<close> runs up to the fetch of page \<open>seenPage c\<close>;
  \<open>processNextPage_resume\<close> runs from the outcome \<open>r\<close> of that fetch to the return or to
  the setting of the timer.
\<close>

definition fetches :: "closure \<Rightarrow> bool" where
  "fetches c = (seenRunning c \<and> seenCount c < 1000)"

definition processNextPage_begin :: "closure \<Rightarrow> app \<Rightarrow> app" where
  "processNextPage_begin c s =
     (if \<not> seenRunning c \<or> seenCount c \<ge> 1000 then s\<lparr>isProcessing := False\<rparr>
      else
        (addLogMessage (s\<lparr>isProcessing := True\<rparr>)
           (''Processing page '' @ showNat (seenPage c) @ ''...''))
        \<lparr>loop := AwaitingFetch c\<rparr>)"

definition processNextPage_resume :: "closure \<Rightarrow> app \<Rightarrow> response \<Rightarrow> app" where
  "processNextPage_resume c s r =
     (case r of
        Rejected e \<Rightarrow>
          (addLogMessage s
             (''Error processing page '' @ showNat (seenPage c) @ '': ''
                @ (case e of Some m \<Rightarrow> m | None \<Rightarrow> ''Unknown error'')))
          \<lparr>isRunning := False, isProcessing := False, loop := NoLoop\<rparr>
      | Resolved charities hasMore \<Rightarrow>
          if charities = [] then
            addLogMessage
              (s\<lparr>hasMorePages := False, isRunning := False, isProcessing := False, loop := NoLoop\<rparr>)
              ''No more items found. Scraping complete.''
          else
            let newProcessedCount = seenCount c + length charities;
                s2 = addLogMessage
                       (saveData
                          (s\<lparr>states := countStates (states s) charities,
                             charityData := charityData s @ charities,
                             currentPage := currentPage s + 1,
                             processedCount :=
                               (if newProcessedCount > 1000 then 1000 else newProcessedCount)\<rparr>))
                       (''Processed page '' @ showNat (seenPage c) @ '', found ''
                          @ showNat (length charities) @ '' new items'')
            in if newProcessedCount \<ge> 1000 then
                 addLogMessage (s2\<lparr>isRunning := False, isProcessing := False, loop := NoLoop\<rparr>)
                   (''Batch complete. Click '' @ [dquote] @ ''Continue'' @ [dquote]
                      @ '' to process the next batch.'')
               else if \<not> hasMore then
                 addLogMessage
                   (s2\<lparr>hasMorePages := hasMore, isRunning := False, isProcessing := False,
                      loop := NoLoop\<rparr>)
                   ''No more items found. Scraping complete.''
               else s2\<lparr>hasMorePages := hasMore, loop := AwaitingTimer c\<rparr>)"

text \<open>A whole call with nothing happening in between: the early return, or the fetch
  and what follows its outcome.\<close>

definition processNextPage :: "closure \<Rightarrow> app \<Rightarrow> response \<Rightarrow> app" where
  "processNextPage c s r =
     (if \<not> seenRunning c \<or> seenCount c \<ge> 1000 then processNextPage_begin c s
      else processNextPage_resume c (processNextPage_begin c s) r)"

text \<open>The timer's callback: \<open>setIsProcessing(false); processNextPage()\<close>, with the
  \<open>processNextPage\<close> that set the timer.\<close>

definition timerFires :: "closure \<Rightarrow> app \<Rightarrow> app" where
  "timerFires c s = processNextPage_begin c (s\<lparr>isProcessing := False\<rparr>)"

text \<open>
  The effect on \<open>isRunning\<close>, \<open>isProcessing\<close> and \<open>processNextPage\<close>: it calls the
  \<open>processNextPage\<close> of the current render when the controller is running and not
  processing. It is applied after every event; where its dependencies have not changed it
  would not run again in the program, and there the call is the early return that changes
  nothing, or a loop is already under way and \<open>isProcessing\<close> is set.
\<close>

definition runEffect :: "app \<Rightarrow> app" where
  "runEffect s = (if isRunning s \<and> \<not> isProcessing s then processNextPage_begin (capture s) s else s)"

text \<open>
  \<open>startScraping\<close>. Its closing call of \<open>processNextPage\<close> uses the closure of the render
  in which the button was pressed.
\<close>

definition startScraping :: "app \<Rightarrow> app" where
  "startScraping s =
     (if \<not> hasMorePages s \<and> currentPage s > 1 then
        addLogMessage s ''No more items to scrape. All pages have been processed.''
      else
        processNextPage_begin (capture s)
          ((addLogMessage
              (addLogMessage (s\<lparr>scraperConfig := sourceUrl s\<rparr>)
                 (''Using source URL: '' @ sourceUrl s))
              ''Starting scraper...'')
           \<lparr>isRunning := True\<rparr>))"

definition pauseScraping :: "app \<Rightarrow> app" where
  "pauseScraping s =
     addLogMessage (s\<lparr>isRunning := False\<rparr>) (''Scraper paused. Click '' @ [dquote] @ ''Continue''
        @ [dquote] @ '' to resume.'')"

text \<open>\<open>resetScraper\<close>; \<open>confirmed\<close> is the answer to \<open>window.confirm\<close>.\<close>

definition resetScraper :: "bool \<Rightarrow> app \<Rightarrow> app" where
  "resetScraper confirmed s =
     (if confirmed then
        addLogMessage
          (s\<lparr>isRunning := False, currentPage := 1, processedCount := 0, log := [],
             states := Map.empty, charityData := [], hasMorePages := True,
             isProcessing := False, localStorage := None\<rparr>)
          ''Scraper reset. Ready to start.''
      else s)"

section \<open>Export (\<open>exportToCSV\<close>)\<close>

text \<open>
  \<open>[...charityData].sort((a, b) => a.name.localeCompare(b.name))\<close>: the collation is a
  parameter, and the sort places each record before the first record of the sorted rest
  that does not compare below it, so that records with equal names keep their order. For
  a collation that is not a consistent ordering the engine fixes the order; the properties
  below use only that the result is a rearrangement.
\<close>

fun insertByName :: "(string \<Rightarrow> string \<Rightarrow> int) \<Rightarrow> charity \<Rightarrow> charity list \<Rightarrow> charity list" where
  "insertByName localeCompare x [] = [x]"
| "insertByName localeCompare x (y # ys) =
     (if localeCompare (name x) (name y) \<le> 0 then x # y # ys
      else y # insertByName localeCompare x ys)"

definition sortByName :: "(string \<Rightarrow> string \<Rightarrow> int) \<Rightarrow> charity list \<Rightarrow> charity list" where
  "sortByName localeCompare cs = foldr (insertByName localeCompare) cs []"

text \<open>\<open>xs.join(sep)\<close>\<close>

fun joinWith :: "string \<Rightarrow> string list \<Rightarrow> string" where
  "joinWith sep [] = []"
| "joinWith sep [x] = x"
| "joinWith sep (x # y # ys) = x @ sep @ joinWith sep (y # ys)"

text \<open>\<open>field.replace(/"/g, '""')\<close>\<close>

definition escapeQuotes :: "string \<Rightarrow> string" where
  "escapeQuotes f = concat (map (\<lambda>c. if c = dquote then [dquote, dquote] else [c]) f)"

definition quoted :: "string \<Rightarrow> string" where
  "quoted f = dquote # f @ [dquote]"

definition headers :: "string list" where
  "headers = [''Name'', ''Address'', ''Website'', ''Email'', ''State'']"

text \<open>One data row. The first four fields are escaped; \<open>state\<close> is wrapped in quotes
  as it is.\<close>

definition csvRow :: "charity \<Rightarrow> string" where
  "csvRow c =
     joinWith '',''
       [quoted (escapeQuotes (name c)),
        quoted (escapeQuotes (address c)),
        quoted (escapeQuotes (website c)),
        quoted (case email c of None \<Rightarrow> [] | Some e \<Rightarrow> escapeQuotes e),
        quoted (state c)]"

definition newline :: char where
  "newline = CHR 0x0A"

definition csvContent :: "charity list \<Rightarrow> string" where
  "csvContent sortedCharities =
     joinWith [newline] (joinWith '','' headers # map csvRow sortedCharities)"

text \<open>
  \<open>exportToCSV\<close> returns the new state and the text handed to the download, when there
  is one. Building the download link is outside the model.
\<close>

definition exportToCSV :: "(string \<Rightarrow> string \<Rightarrow> int) \<Rightarrow> app \<Rightarrow> app \<times> string option" where
  "exportToCSV localeCompare s =
     (if charityData s = [] then (addLogMessage s ''No data to export'', None)
      else
        let sortedCharities = sortByName localeCompare (charityData s)
        in ((addLogMessage
               (addLogMessage (s\<lparr>isExporting := True\<rparr>) ''Preparing CSV export...'')
               (''Exported '' @ showNat (length sortedCharities) @ '' items to CSV''))
            \<lparr>isExporting := False\<rparr>,
            Some (csvContent sortedCharities)))"

text \<open>
  The reader the export is meant for. It is not code of the repository; it follows the
  specification's words: fields are
  separated by commas and rows by line feeds; a field that opens with a double quote runs
  to its closing quote, and two double quotes inside it stand for one. The scanner keeps
  the field, the row and the rows read so far; text that ends inside a quoted field, a quote
  inside a bare field and text after a closing quote are rejected.
\<close>

datatype mode = FieldStart | Bare | InQuotes | QuoteSeen

fun scanCsv :: "mode \<Rightarrow> string \<Rightarrow> string list \<Rightarrow> string list list \<Rightarrow> string
                  \<Rightarrow> string list list option" where
  "scanCsv m f row rows [] =
     (if m = InQuotes then None else Some (rows @ [row @ [f]]))"
| "scanCsv FieldStart f row rows (c # cs) =
     (if c = dquote then scanCsv InQuotes [] row rows cs
      else if c = CHR '','' then scanCsv FieldStart [] (row @ [[]]) rows cs
      else if c = newline then scanCsv FieldStart [] [] (rows @ [row @ [[]]]) cs
      else scanCsv Bare [c] row rows cs)"
| "scanCsv Bare f row rows (c # cs) =
     (if c = dquote then None
      else if c = CHR '','' then scanCsv FieldStart [] (row @ [f]) rows cs
      else if c = newline then scanCsv FieldStart [] [] (rows @ [row @ [f]]) cs
      else scanCsv Bare (f @ [c]) row rows cs)"
| "scanCsv InQuotes f row rows (c # cs) =
     (if c = dquote then scanCsv QuoteSeen f row rows cs
      else scanCsv InQuotes (f @ [c]) row rows cs)"
| "scanCsv QuoteSeen f row rows (c # cs) =
     (if c = dquote then scanCsv InQuotes (f @ [dquote]) row rows cs
      else if c = CHR '','' then scanCsv FieldStart [] (row @ [f]) rows cs
      else if c = newline then scanCsv FieldStart [] [] (rows @ [row @ [f]]) cs
      else None)"

definition parseDelimited :: "string \<Rightarrow> string list list option" where
  "parseDelimited txt = scanCsv FieldStart [] [] [] txt"

text \<open>The field values of a record in export order, an absent \<open>email\<close> as the empty
  text.\<close>

definition fieldsOf :: "charity \<Rightarrow> string list" where
  "fieldsOf c =
     [name c, address c, website c, (case email c of None \<Rightarrow> [] | Some e \<Rightarrow> e), state c]"

section \<open>Runs of the controller\<close>

text \<open>
  What can happen to a mounted component: the three buttons, the outcome of the fetch the
  loop is awaiting, the timer set after a page, an export, an edit of the source URL, and a
  reload of the page, which mounts the component again over the same local storage and
  drops the loop. A button that is not shown or is disabled does nothing: Start is shown
  while \<open>isRunning\<close> is false and is disabled while \<open>isProcessing\<close> or when
  \<open>!hasMorePages && currentPage > 1\<close>; Pause is shown while running; Reset is disabled
  while \<open>isProcessing\<close>; the export buttons need a non-empty record store or tally; the
  URL field is disabled while running. The effect runs after each event.
\<close>

datatype event =
    Start
  | Pause
  | Reset bool
  | FetchSettles response
  | TimerElapses
  | Export
  | EditSourceUrl string
  | Reload

fun handleEvent :: "(string \<Rightarrow> string \<Rightarrow> int) \<Rightarrow> app \<Rightarrow> event \<Rightarrow> app option" where
  "handleEvent lc s Start =
     Some (if isRunning s \<or> isProcessing s \<or> (\<not> hasMorePages s \<and> currentPage s > 1) then s
           else startScraping s)"
| "handleEvent lc s Pause = Some (if isRunning s then pauseScraping s else s)"
| "handleEvent lc s (Reset confirmed) =
     Some (if isProcessing s then s else resetScraper confirmed s)"
| "handleEvent lc s (FetchSettles r) =
     Some (case loop s of AwaitingFetch c \<Rightarrow> processNextPage_resume c s r | _ \<Rightarrow> s)"
| "handleEvent lc s TimerElapses =
     Some (case loop s of AwaitingTimer c \<Rightarrow> timerFires c s | _ \<Rightarrow> s)"
| "handleEvent lc s Export =
     Some (if charityData s = [] \<and> states s = Map.empty then s else fst (exportToCSV lc s))"
| "handleEvent lc s (EditSourceUrl u) = Some (if isRunning s then s else s\<lparr>sourceUrl := u\<rparr>)"
| "handleEvent lc s Reload = mount (localStorage s)"

definition step :: "(string \<Rightarrow> string \<Rightarrow> int) \<Rightarrow> app \<Rightarrow> event \<Rightarrow> app option" where
  "step lc s e = map_option runEffect (handleEvent lc s e)"

fun run :: "(string \<Rightarrow> string \<Rightarrow> int) \<Rightarrow> app \<Rightarrow> event list \<Rightarrow> app option" where
  "run lc s [] = Some s"
| "run lc s (e # evs) = (case step lc s e of None \<Rightarrow> None | Some s' \<Rightarrow> run lc s' evs)"

fun loopEvent :: "event \<Rightarrow> bool" where
  "loopEvent (FetchSettles r) = True"
| "loopEvent TimerElapses = True"
| "loopEvent _ = False"

text \<open>The number of stored records of a region, the count a tally holds for a region,
  and the total of a tally.\<close>

definition recordsInRegion :: "charity list \<Rightarrow> string \<Rightarrow> nat" where
  "recordsInRegion cs r = length (filter (\<lambda>c. state c = r) cs)"

definition tallyCount :: "(string \<rightharpoonup> tally_value) \<Rightarrow> string \<Rightarrow> nat" where
  "tallyCount m r = (case m r of Some (Count n) \<Rightarrow> n | _ \<Rightarrow> 0)"

definition tallyTotal :: "(string \<rightharpoonup> tally_value) \<Rightarrow> nat" where
  "tallyTotal m = (\<Sum>r\<in>dom m. tallyCount m r)"

definition numericTally :: "(string \<rightharpoonup> tally_value) \<Rightarrow> bool" where
  "numericTally m = (\<forall>r. m r \<noteq> Some NotANumber)"

text \<open>
  The records that come in from outside, with regions as the producers give them: those
  of a stored snapshot and those of the pages the source delivers.
\<close>

definition storedDerived :: "stored option \<Rightarrow> bool" where
  "storedDerived ls =
     (case ls of Some (Parsed d) \<Rightarrow> regionsDerived d | Some NotRecords \<Rightarrow> False | _ \<Rightarrow> True)"

fun eventDerived :: "event \<Rightarrow> bool" where
  "eventDerived (FetchSettles (Resolved cs hasMore)) = regionsDerived cs"
| "eventDerived _ = True"

text \<open>
  Invariants of the runs. \<open>controllerOk\<close>: the counter is within the batch limit; while
  a loop is under way \<open>isProcessing\<close> is set, the loop's closure passes the guard, Start
  would be accepted and the counter is below the limit; a controller that is running and
  not processing is at the limit; the stored entry is one the mount can read.
  \<open>tallyOk\<close>: the tally holds, for each region, the number of stored records of that
  region, and nothing else.
\<close>

definition controllerOk :: "app \<Rightarrow> bool" where
  "controllerOk s \<longleftrightarrow>
     processedCount s \<le> 1000
     \<and> (loop s \<noteq> NoLoop \<longrightarrow>
          isProcessing s \<and> (hasMorePages s \<or> currentPage s \<le> 1) \<and> processedCount s < 1000)
     \<and> (\<forall>c. loop s = AwaitingFetch c \<or> loop s = AwaitingTimer c \<longrightarrow> fetches c)
     \<and> (isRunning s \<and> \<not> isProcessing s \<longrightarrow> 1000 \<le> processedCount s)
     \<and> localStorage s \<noteq> Some NotRecords"

definition tallyOf :: "charity list \<Rightarrow> string \<rightharpoonup> tally_value" where
  "tallyOf cs r = (if recordsInRegion cs r = 0 then None else Some (Count (recordsInRegion cs r)))"

definition tallyOk :: "app \<Rightarrow> bool" where
  "tallyOk s \<longleftrightarrow>
     regionsDerived (charityData s) \<and> states s = tallyOf (charityData s)
     \<and> storedDerived (localStorage s)"

text \<open>Sample records and a collation by code units, for the concrete runs below.\<close>

definition sampleCharity :: charity where
  "sampleCharity =
     \<lparr>name = ''Feeding America'', address = ''161 North Clark Street, Chicago, IL 60601'',
      website = ''https://www.feedingamerica.org'', email = Some ''info@feedingamerica.org'',
      state = ''IL''\<rparr>"

definition quotedNameCharity :: charity where
  "quotedNameCharity =
     \<lparr>name = ''Acme, '' @ [dquote] @ ''Best'' @ [dquote] @ '' Inc'',
      address = ''1 Main St, Suite '' @ [dquote] @ ''B'' @ [dquote] @ '', Springfield, IL 62701'',
      website = [], email = None, state = ''IL''\<rparr>"

text \<open>The closure of the first loop after a fresh mount, and the state in which that
  loop awaits its first page.\<close>

definition firstClosure :: closure where
  "firstClosure = \<lparr>seenRunning = True, seenCount = 0, seenPage = 1\<rparr>"

definition startedApp :: app where
  "startedApp = runEffect (startScraping (initialApp None))"

fun compareCodeUnits :: "string \<Rightarrow> string \<Rightarrow> int" where
  "compareCodeUnits [] [] = 0"
| "compareCodeUnits [] (y # ys) = - 1"
| "compareCodeUnits (x # xs) [] = 1"
| "compareCodeUnits (x # xs) (y # ys) =
     (if charCode x < charCode y then - 1 else if charCode y < charCode x then 1
      else compareCodeUnits xs ys)"

declare showNat.simps [simp del]

section \<open>Properties\<close>

subsection \<open>Containment and the ZIP test\<close>

lemma startsWith_iff: "startsWith s t \<longleftrightarrow> (\<exists>ss. s = t @ ss)"
  by (induction s t rule: startsWith.induct) auto

lemma includesStr_iff: "includesStr s t \<longleftrightarrow> occursIn t s"
proof (induction s)
  case Nil
  then show ?case by (auto simp: occursIn_def)
next
  case (Cons x xs)
  have "occursIn t (x # xs) \<longleftrightarrow> (\<exists>ss. x # xs = t @ ss) \<or> occursIn t xs"
    unfolding occursIn_def
  proof
    assume "\<exists>ps ss. x # xs = ps @ t @ ss"
    then obtain ps ss where e: "x # xs = ps @ t @ ss" by blast
    show "(\<exists>ss. x # xs = t @ ss) \<or> (\<exists>ps ss. xs = ps @ t @ ss)"
    proof (cases ps)
      case Nil
      with e show ?thesis by auto
    next
      case (Cons p ps')
      with e have "xs = ps' @ t @ ss" by simp
      then show ?thesis by blast
    qed
  next
    assume "(\<exists>ss. x # xs = t @ ss) \<or> (\<exists>ps ss. xs = ps @ t @ ss)"
    then show "\<exists>ps ss. x # xs = ps @ t @ ss"
    proof
      assume "\<exists>ss. x # xs = t @ ss"
      then obtain ss where "x # xs = [] @ t @ ss" by auto
      then show ?thesis by blast
    next
      assume "\<exists>ps ss. xs = ps @ t @ ss"
      then obtain ps ss where "x # xs = (x # ps) @ t @ ss" by auto
      then show ?thesis by blast
    qed
  qed
  with Cons show ?case by (simp add: startsWith_iff)
qed

lemma digit_not_space: "isDigit c \<Longrightarrow> \<not> isSpace c"
  by (auto simp: isDigit_def isSpace_def)

lemma zipAfter_iff:
  "zipAfter s \<longleftrightarrow> (\<exists>ws ds rest. s = ws @ ds @ rest \<and> ws \<noteq> [] \<and> list_all isSpace ws
       \<and> length ds = 5 \<and> list_all isDigit ds)"
proof
  assume z: "zipAfter s"
  let ?ws = "takeWhile isSpace s" and ?r = "dropWhile isSpace s"
  from z have a: "?ws \<noteq> []" "5 \<le> length ?r" "list_all isDigit (take 5 ?r)"
    by (simp_all add: zipAfter_def Let_def)
  have "s = ?ws @ take 5 ?r @ drop 5 ?r" by simp
  moreover have "list_all isSpace ?ws" by (simp add: list_all_iff) (meson set_takeWhileD)
  moreover from a have "length (take 5 ?r) = 5" by simp
  ultimately show "\<exists>ws ds rest. s = ws @ ds @ rest \<and> ws \<noteq> [] \<and> list_all isSpace ws
       \<and> length ds = 5 \<and> list_all isDigit ds" using a by blast
next
  assume "\<exists>ws ds rest. s = ws @ ds @ rest \<and> ws \<noteq> [] \<and> list_all isSpace ws
       \<and> length ds = 5 \<and> list_all isDigit ds"
  then obtain ws ds rest where s: "s = ws @ ds @ rest" and w: "ws \<noteq> []" "list_all isSpace ws"
    and d: "length ds = 5" "list_all isDigit ds" by blast
  from d obtain d0 ds' where ds: "ds = d0 # ds'" by (cases ds) auto
  with d have nd: "\<not> isSpace d0" by (simp add: digit_not_space)
  from w have tw: "takeWhile isSpace s = ws" unfolding s ds
    by (simp add: list_all_iff nd takeWhile_tail)
  from w have dw: "dropWhile isSpace s = ds @ rest" unfolding s ds
    by (simp add: list_all_iff nd dropWhile_append3)
  show "zipAfter s" using w d by (simp add: zipAfter_def Let_def tw dw)
qed

subsection \<open>The regular expression and the table loop\<close>

lemma zipHere_short: "length xs < 2 \<Longrightarrow> \<not> zipHere xs"
  by (cases xs rule: zipHere.cases) auto

lemma zipHere_drop_single [simp]: "\<not> zipHere (drop i [v])" "\<not> zipHere (drop i [])"
  by (simp_all add: zipHere_short)

lemma zipMatchAt_iff:
  "zipMatchAt a i g \<longleftrightarrow> i \<le> length a \<and> zipHere (drop i a) \<and> g = take 2 (drop i a)"
proof
  assume "zipMatchAt a i g"
  then obtain pre ws ds suf rest where a: "a = pre @ g @ ws @ ds @ suf @ rest" "length pre = i"
    and g: "length g = 2" "list_all isUpper g"
    and w: "ws \<noteq> []" "list_all isSpace ws" and d: "length ds = 5" "list_all isDigit ds"
    unfolding zipMatchAt_def by blast
  from g obtain c1 c2 where gg: "g = [c1, c2]"
    by (cases g; cases "tl g") auto
  have dr: "drop i a = c1 # c2 # (ws @ ds @ suf @ rest)" using a gg by simp
  have "zipAfter (ws @ ds @ (suf @ rest))" unfolding zipAfter_iff using w d by blast
  then show "i \<le> length a \<and> zipHere (drop i a) \<and> g = take 2 (drop i a)"
    using a g gg dr by simp
next
  assume h: "i \<le> length a \<and> zipHere (drop i a) \<and> g = take 2 (drop i a)"
  then obtain c1 c2 r where dr: "drop i a = c1 # c2 # r"
    by (cases "drop i a" rule: zipHere.cases) auto
  with h have u: "isUpper c1" "isUpper c2" and z: "zipAfter r" and gg: "g = [c1, c2]" by auto
  from z obtain ws ds rest where r: "r = ws @ ds @ rest" and w: "ws \<noteq> []" "list_all isSpace ws"
    and d: "length ds = 5" "list_all isDigit ds" unfolding zipAfter_iff by blast
  have "a = take i a @ drop i a" by simp
  then have "a = take i a @ g @ ws @ ds @ [] @ rest" using dr gg r by simp
  moreover have "length (take i a) = i" using h by simp
  ultimately have "a = take i a @ g @ ws @ ds @ [] @ rest \<and> length (take i a) = i
        \<and> length g = 2 \<and> list_all isUpper g
        \<and> ws \<noteq> [] \<and> list_all isSpace ws
        \<and> length ds = 5 \<and> list_all isDigit ds
        \<and> ([] = [] \<or> (\<exists>d4. ([]::string) = CHR ''-'' # d4 \<and> length d4 = 4 \<and> list_all isDigit d4))"
    using gg u w d by simp
  then show "zipMatchAt a i g" unfolding zipMatchAt_def by blast
qed

lemma stateZipMatch_None: "stateZipMatch a = None \<longleftrightarrow> (\<forall>i. \<not> zipHere (drop i a))"
proof (induction a rule: stateZipMatch.induct)
  case (1 c1 c2 rest)
  have "(\<forall>i. \<not> zipHere (drop i (c1 # c2 # rest)))
     \<longleftrightarrow> \<not> zipHere (c1 # c2 # rest) \<and> (\<forall>i. \<not> zipHere (drop i (c2 # rest)))"
    (is "?L \<longleftrightarrow> ?R")
  proof
    assume l: ?L
    from l[rule_format, of 0] have "\<not> zipHere (c1 # c2 # rest)" by simp
    moreover have "\<not> zipHere (drop i (c2 # rest))" for i using l[rule_format, of "Suc i"] by simp
    ultimately show ?R by blast
  next
    assume r: ?R
    show ?L
    proof
      fix i show "\<not> zipHere (drop i (c1 # c2 # rest))"
        using r by (cases i) auto
    qed
  qed
  with 1 show ?case by auto
qed auto

lemma stateZipMatch_Some:
  "stateZipMatch a = Some g \<longleftrightarrow>
     (\<exists>i. zipHere (drop i a) \<and> g = take 2 (drop i a) \<and> (\<forall>j<i. \<not> zipHere (drop j a)))"
proof (induction a rule: stateZipMatch.induct)
  case (1 c1 c2 rest)
  show ?case
  proof (cases "zipHere (c1 # c2 # rest)")
    case True
    have "(\<exists>i. zipHere (drop i (c1 # c2 # rest)) \<and> g = take 2 (drop i (c1 # c2 # rest))
            \<and> (\<forall>j<i. \<not> zipHere (drop j (c1 # c2 # rest)))) \<longleftrightarrow> g = [c1, c2]"
    proof
      assume "\<exists>i. zipHere (drop i (c1 # c2 # rest)) \<and> g = take 2 (drop i (c1 # c2 # rest))
            \<and> (\<forall>j<i. \<not> zipHere (drop j (c1 # c2 # rest)))"
      then obtain i where i: "g = take 2 (drop i (c1 # c2 # rest))"
        "\<forall>j<i. \<not> zipHere (drop j (c1 # c2 # rest))" by blast
      have "i = 0"
      proof (rule ccontr)
        assume "i \<noteq> 0"
        then have "0 < i" by simp
        with i(2) have "\<not> zipHere (drop 0 (c1 # c2 # rest))" by blast
        with True show False by simp
      qed
      with i show "g = [c1, c2]" by simp
    next
      assume "g = [c1, c2]"
      with True have "zipHere (drop 0 (c1 # c2 # rest)) \<and> g = take 2 (drop 0 (c1 # c2 # rest))
            \<and> (\<forall>j<0. \<not> zipHere (drop j (c1 # c2 # rest)))" by simp
      then show "\<exists>i. zipHere (drop i (c1 # c2 # rest)) \<and> g = take 2 (drop i (c1 # c2 # rest))
            \<and> (\<forall>j<i. \<not> zipHere (drop j (c1 # c2 # rest)))" by blast
    qed
    with True show ?thesis by auto
  next
    case False
    have "(\<exists>i. zipHere (drop i (c1 # c2 # rest)) \<and> g = take 2 (drop i (c1 # c2 # rest))
            \<and> (\<forall>j<i. \<not> zipHere (drop j (c1 # c2 # rest))))
      \<longleftrightarrow> (\<exists>i. zipHere (drop i (c2 # rest)) \<and> g = take 2 (drop i (c2 # rest))
            \<and> (\<forall>j<i. \<not> zipHere (drop j (c2 # rest))))" (is "?L \<longleftrightarrow> ?R")
    proof
      assume ?L
      then obtain i where i: "zipHere (drop i (c1 # c2 # rest))"
        "g = take 2 (drop i (c1 # c2 # rest))"
        "\<forall>j<i. \<not> zipHere (drop j (c1 # c2 # rest))" by blast
      from i(1) False obtain k where k: "i = Suc k" by (cases i) auto
      have "\<not> zipHere (drop j (c2 # rest))" if "j < k" for j
        using i(3)[rule_format, of "Suc j"] that k by simp
      with i k show ?R by auto
    next
      assume ?R
      then obtain i where i: "zipHere (drop i (c2 # rest))"
        "g = take 2 (drop i (c2 # rest))"
        "\<forall>j<i. \<not> zipHere (drop j (c2 # rest))" by blast
      have "\<not> zipHere (drop j (c1 # c2 # rest))" if "j < Suc i" for j
        using that False i(3) by (cases j) auto
      with i have "zipHere (drop (Suc i) (c1 # c2 # rest)) \<and> g = take 2 (drop (Suc i) (c1 # c2 # rest))
            \<and> (\<forall>j<Suc i. \<not> zipHere (drop j (c1 # c2 # rest)))" by simp
      then show ?L by blast
    qed
    with False 1 show ?thesis by auto
  qed
qed auto

lemma zipHere_drop_length: "zipHere (drop i a) \<Longrightarrow> i \<le> length a"
  by (cases "i \<le> length a") auto

lemma lookupName_Some:
  "lookupName tbl a = Some c \<longleftrightarrow>
     (\<exists>k<length tbl. snd (tbl ! k) = c \<and> occursIn (fst (tbl ! k)) a
         \<and> (\<forall>j<k. \<not> occursIn (fst (tbl ! j)) a))"
proof (induction tbl a rule: lookupName.induct)
  case (1 a) show ?case by simp
next
  case (2 n cd es a)
  show ?case
  proof (cases "occursIn n a")
    case True
    have "(\<exists>k<length ((n, cd) # es). snd (((n, cd) # es) ! k) = c \<and> occursIn (fst (((n, cd) # es) ! k)) a
         \<and> (\<forall>j<k. \<not> occursIn (fst (((n, cd) # es) ! j)) a)) \<longleftrightarrow> cd = c" (is "?L \<longleftrightarrow> _")
    proof
      assume ?L
      then obtain k where k: "snd (((n, cd) # es) ! k) = c"
        "\<forall>j<k. \<not> occursIn (fst (((n, cd) # es) ! j)) a" by blast
      have "k = 0"
      proof (rule ccontr)
        assume "k \<noteq> 0" then have "0 < k" by simp
        with k(2) have "\<not> occursIn (fst (((n, cd) # es) ! 0)) a" by blast
        with True show False by simp
      qed
      with k show "cd = c" by simp
    next
      assume "cd = c"
      with True have "0 < length ((n, cd) # es) \<and> snd (((n, cd) # es) ! 0) = c \<and> occursIn (fst (((n, cd) # es) ! 0)) a
         \<and> (\<forall>j<0. \<not> occursIn (fst (((n, cd) # es) ! j)) a)" by simp
      then show ?L by blast
    qed
    with True show ?thesis by (simp add: includesStr_iff)
  next
    case False
    have "(\<exists>k<length ((n, cd) # es). snd (((n, cd) # es) ! k) = c \<and> occursIn (fst (((n, cd) # es) ! k)) a
         \<and> (\<forall>j<k. \<not> occursIn (fst (((n, cd) # es) ! j)) a))
      \<longleftrightarrow> (\<exists>k<length es. snd (es ! k) = c \<and> occursIn (fst (es ! k)) a
         \<and> (\<forall>j<k. \<not> occursIn (fst (es ! j)) a))" (is "?L \<longleftrightarrow> ?R")
    proof
      assume ?L
      then obtain k where k: "k < length ((n, cd) # es)" "snd (((n, cd) # es) ! k) = c"
        "occursIn (fst (((n, cd) # es) ! k)) a"
        "\<forall>j<k. \<not> occursIn (fst (((n, cd) # es) ! j)) a" by blast
      from k(3) False obtain m where m: "k = Suc m" by (cases k) auto
      have "\<not> occursIn (fst (es ! j)) a" if "j < m" for j
        using k(4)[rule_format, of "Suc j"] that m by simp
      with k m show ?R by auto
    next
      assume ?R
      then obtain k where k: "k < length es" "snd (es ! k) = c" "occursIn (fst (es ! k)) a"
        "\<forall>j<k. \<not> occursIn (fst (es ! j)) a" by blast
      have "\<not> occursIn (fst (((n, cd) # es) ! j)) a" if "j < Suc k" for j
        using that False k(4) by (cases j) auto
      with k have "Suc k < length ((n, cd) # es) \<and> snd (((n, cd) # es) ! Suc k) = c
         \<and> occursIn (fst (((n, cd) # es) ! Suc k)) a
         \<and> (\<forall>j<Suc k. \<not> occursIn (fst (((n, cd) # es) ! j)) a)" by simp
      then show ?L by blast
    qed
    with False 2 show ?thesis by (simp add: includesStr_iff)
  qed
qed

lemma lookupName_None:
  "lookupName tbl a = None \<longleftrightarrow> (\<forall>e\<in>set tbl. \<not> occursIn (fst e) a)"
  by (induction tbl a rule: lookupName.induct) (auto simp: includesStr_iff)

subsection \<open>Precedence of region derivation\<close>

lemma no_zip_iff: "(\<forall>i g. \<not> zipMatchAt a i g) \<longleftrightarrow> stateZipMatch a = None"
  unfolding stateZipMatch_None zipMatchAt_iff using zipHere_drop_length by blast

lemma first_zip_iff:
  "(\<exists>i. zipMatchAt a i g \<and> (\<forall>j<i. \<forall>g'. \<not> zipMatchAt a j g')) \<longleftrightarrow> stateZipMatch a = Some g"
proof -
  have "(\<forall>j<i. \<forall>g'. \<not> zipMatchAt a j g') \<longleftrightarrow> (\<forall>j<i. \<not> zipHere (drop j a))" for i
    unfolding zipMatchAt_iff using zipHere_drop_length by blast
  then show ?thesis
    unfolding stateZipMatch_Some zipMatchAt_iff using zipHere_drop_length by blast
qed

lemma table_names_nonempty: "\<forall>e\<in>set states_table. fst e \<noteq> []"
  by code_simp

lemma occursIn_Nil: "occursIn t [] \<longleftrightarrow> t = []"
  by (simp add: occursIn_def)

lemma ex1: "extractState ''431 18th Street NW, Washington, DC 20006'' = ''DC''"
  by code_simp

lemma ex2: "extractState ''123 Main St, City, Nowhere'' = ''Unknown''"
  by code_simp

lemma ex3: "extractState ''789 Pine Rd, Chicago, IL 60601'' = ''IL''"
  by code_simp

text \<open>
  Claim C4. Region derivation follows the precedence (a) the two capitals of the leftmost
  match of two capitals, white space and a five-digit ZIP (with or without the
  hyphen-and-four-digits suffix), (b) otherwise the code of the first entry of the
  51-entry name table whose name the address contains, (c) otherwise \<open>Unknown\<close>; and it
  maps the three addresses of the specification to \<open>DC\<close>, \<open>Unknown\<close> and \<open>IL\<close>.
  Being a function of the address alone, it is deterministic and has no side effect.
\<close>

theorem extractState_precedence:
  "(\<forall>i g. zipMatchAt a i g \<and> (\<forall>j<i. \<forall>g'. \<not> zipMatchAt a j g') \<longrightarrow> extractState a = g)
   \<and> ((\<forall>i g. \<not> zipMatchAt a i g) \<longrightarrow>
        (\<forall>k<length states_table.
            occursIn (fst (states_table ! k)) a \<and> (\<forall>j<k. \<not> occursIn (fst (states_table ! j)) a)
            \<longrightarrow> extractState a = snd (states_table ! k)))
   \<and> ((\<forall>i g. \<not> zipMatchAt a i g) \<and> (\<forall>e\<in>set states_table. \<not> occursIn (fst e) a)
        \<longrightarrow> extractState a = ''Unknown'')
   \<and> length states_table = 51
   \<and> extractState ''431 18th Street NW, Washington, DC 20006'' = ''DC''
   \<and> extractState ''123 Main St, City, Nowhere'' = ''Unknown''
   \<and> extractState ''789 Pine Rd, Chicago, IL 60601'' = ''IL''"
proof -
  have a: "extractState a = g" if "zipMatchAt a i g" "\<forall>j<i. \<forall>g'. \<not> zipMatchAt a j g'" for i g
  proof -
    from that have "stateZipMatch a = Some g" using first_zip_iff by blast
    moreover from that(1) have "a \<noteq> []" by (auto simp: zipMatchAt_def)
    ultimately show ?thesis by (simp add: extractState_def)
  qed
  have b: "extractState a = snd (states_table ! k)"
    if nz: "\<forall>i g. \<not> zipMatchAt a i g" and k: "k < length states_table"
      "occursIn (fst (states_table ! k)) a" "\<forall>j<k. \<not> occursIn (fst (states_table ! j)) a" for k
  proof -
    from nz have z: "stateZipMatch a = None" by (simp add: no_zip_iff)
    from k have l: "lookupName states_table a = Some (snd (states_table ! k))"
      unfolding lookupName_Some by blast
    from k(1) have "states_table ! k \<in> set states_table" by simp
    with table_names_nonempty have "fst (states_table ! k) \<noteq> []" by blast
    with k(2) have "a \<noteq> []" by (auto simp: occursIn_Nil)
    with z l show ?thesis by (simp add: extractState_def)
  qed
  have c: "extractState a = ''Unknown''"
    if "\<forall>i g. \<not> zipMatchAt a i g" "\<forall>e\<in>set states_table. \<not> occursIn (fst e) a"
  proof -
    from that have "stateZipMatch a = None" "lookupName states_table a = None"
      by (simp_all add: no_zip_iff lookupName_None)
    then show ?thesis by (simp add: extractState_def)
  qed
  have d: "length states_table = 51" by code_simp
  from a b c d ex1 ex2 ex3 show ?thesis by blast
qed

lemma no_zip_before_iff:
  "(\<forall>j<i. \<forall>g'. \<not> zipMatchAt a j g') \<longleftrightarrow> (\<forall>j\<in>set [0..<i]. \<not> zipHere (drop j a))"
  unfolding zipMatchAt_iff using zipHere_drop_length by auto

lemma first_in_table_iff:
  "(\<forall>j<k. \<not> occursIn (fst (tbl ! j)) a) \<longleftrightarrow> (\<forall>j\<in>set [0..<k]. \<not> includesStr a (fst (tbl ! j)))"
  by (auto simp: includesStr_iff)

lemma not_in_table_iff:
  "(\<forall>e\<in>set tbl. \<not> occursIn (fst e) a) \<longleftrightarrow> (\<forall>e\<in>set tbl. \<not> includesStr a (fst e))"
  by (simp add: includesStr_iff)

text \<open>
  The three branches at concrete addresses: a ZIP match at offset 9, a name found at
  index 1 of the table with no ZIP match, and neither.
\<close>

theorem extractState_precedence_witness:
  "zipMatchAt ''Chicago, IL 60601'' 9 ''IL''
   \<and> \<not> (\<exists>j<9. \<exists>g'. zipMatchAt ''Chicago, IL 60601'' j g')
   \<and> extractState ''Chicago, IL 60601'' = ''IL''
   \<and> \<not> (\<exists>i g. zipMatchAt ''Juneau, Alaska'' i g)
   \<and> 1 < length states_table
   \<and> occursIn (fst (states_table ! 1)) ''Juneau, Alaska''
   \<and> \<not> (\<exists>j<1. occursIn (fst (states_table ! j)) ''Juneau, Alaska'')
   \<and> extractState ''Juneau, Alaska'' = ''AK''
   \<and> \<not> (\<exists>i g. zipMatchAt ''123 Main St, City, Nowhere'' i g)
   \<and> \<not> (\<exists>e\<in>set states_table. occursIn (fst e) ''123 Main St, City, Nowhere'')
   \<and> extractState ''123 Main St, City, Nowhere'' = ''Unknown''"
proof -
  have "9 \<le> length ''Chicago, IL 60601'' \<and> zipHere (drop 9 ''Chicago, IL 60601'')
          \<and> ''IL'' = take 2 (drop 9 ''Chicago, IL 60601'')" by code_simp
  then have h1: "zipMatchAt ''Chicago, IL 60601'' 9 ''IL''"
    by (simp only: zipMatchAt_iff)
  have "\<forall>j\<in>set [0..<9]. \<not> zipHere (drop j ''Chicago, IL 60601'')" by code_simp
  then have h2: "\<forall>j<9. \<forall>g'. \<not> zipMatchAt ''Chicago, IL 60601'' j g'"
    by (simp only: no_zip_before_iff)
  have "stateZipMatch ''Juneau, Alaska'' = None" by code_simp
  then have h3: "\<forall>i g. \<not> zipMatchAt ''Juneau, Alaska'' i g"
    by (simp only: no_zip_iff)
  have h4: "1 < length states_table" by code_simp
  have "includesStr ''Juneau, Alaska'' (fst (states_table ! 1))" by code_simp
  then have h5: "occursIn (fst (states_table ! 1)) ''Juneau, Alaska''"
    by (simp only: includesStr_iff)
  have "\<forall>j\<in>set [0..<1]. \<not> includesStr ''Juneau, Alaska'' (fst (states_table ! j))" by code_simp
  then have h6: "\<forall>j<1. \<not> occursIn (fst (states_table ! j)) ''Juneau, Alaska''"
    by (simp only: first_in_table_iff)
  have "stateZipMatch ''123 Main St, City, Nowhere'' = None" by code_simp
  then have h7: "\<forall>i g. \<not> zipMatchAt ''123 Main St, City, Nowhere'' i g"
    by (simp only: no_zip_iff)
  have "\<forall>e\<in>set states_table. \<not> includesStr ''123 Main St, City, Nowhere'' (fst e)" by code_simp
  then have h8: "\<forall>e\<in>set states_table. \<not> occursIn (fst e) ''123 Main St, City, Nowhere''"
    by (simp only: not_in_table_iff)
  have e: "snd (states_table ! 1) = ''AK''" by code_simp
  note t1 = extractState_precedence [of "''Chicago, IL 60601''"]
  note t2 = extractState_precedence [of "''Juneau, Alaska''"]
  note t3 = extractState_precedence [of "''123 Main St, City, Nowhere''"]
  from t1 h1 h2 have r1: "extractState ''Chicago, IL 60601'' = ''IL''" by blast
  from t2 h3 h4 h5 h6 have "extractState ''Juneau, Alaska'' = snd (states_table ! 1)" by blast
  with e have r2: "extractState ''Juneau, Alaska'' = ''AK''" by simp
  from t3 h7 h8 have r3: "extractState ''123 Main St, City, Nowhere'' = ''Unknown''" by blast
  from h1 h2 r1 h3 h4 h5 h6 r2 h7 h8 r3 show ?thesis by blast
qed

subsection \<open>Names that contain other names\<close>

lemma west_has_virginia: "occursIn ''West Virginia'' a \<Longrightarrow> occursIn ''Virginia'' a"
proof -
  assume "occursIn ''West Virginia'' a"
  then obtain ps ss where "a = ps @ ''West Virginia'' @ ss" unfolding occursIn_def by blast
  then have "a = (ps @ ''West '') @ ''Virginia'' @ ss" by simp
  then show ?thesis unfolding occursIn_def by blast
qed

lemma codes_before_WV: "\<forall>j\<in>set [0..<46]. snd (states_table ! j) \<noteq> ''WV''"
  by code_simp

lemma entry_Virginia: "45 < length states_table \<and> states_table ! 45 = (''Virginia'', ''VA'')"
  by code_simp

text \<open>
  Claim C10, as amended. For an address with no ZIP match that contains
  \<open>West Virginia\<close>, region derivation never returns \<open>WV\<close>: it returns the code of the first
  table entry, at or before \<open>Virginia\<close> (index 45), whose name the address contains, and
  that is \<open>VA\<close> whenever none of the 45 names before \<open>Virginia\<close> occurs in the address.
\<close>

theorem west_virginia_name_lookup:
  assumes nz: "\<forall>i g. \<not> zipMatchAt a i g" and wv: "occursIn ''West Virginia'' a"
  shows "extractState a \<noteq> ''WV''
       \<and> ((\<forall>j<45. \<not> occursIn (fst (states_table ! j)) a) \<longrightarrow> extractState a = ''VA'')
       \<and> (\<exists>k\<le>45. occursIn (fst (states_table ! k)) a
              \<and> (\<forall>j<k. \<not> occursIn (fst (states_table ! j)) a)
              \<and> extractState a = snd (states_table ! k))"
proof -
  from wv have v: "occursIn (fst (states_table ! 45)) a"
    using west_has_virginia entry_Virginia by simp
  from wv have ne: "a \<noteq> []" by (auto simp: occursIn_def)
  from nz have z: "stateZipMatch a = None" by (simp add: no_zip_iff)
  from entry_Virginia have "45 < length states_table" by simp
  then have "states_table ! 45 \<in> set states_table" by (rule nth_mem)
  with v have "\<exists>e\<in>set states_table. occursIn (fst e) a" by blast
  then have "lookupName states_table a \<noteq> None"
    unfolding lookupName_None by simp
  then obtain c where c: "lookupName states_table a = Some c" by blast
  then obtain k where k: "k < length states_table" "snd (states_table ! k) = c"
    "occursIn (fst (states_table ! k)) a" "\<forall>j<k. \<not> occursIn (fst (states_table ! j)) a"
    unfolding lookupName_Some by blast
  have k45: "k \<le> 45"
  proof (rule ccontr)
    assume "\<not> k \<le> 45"
    then have "45 < k" by simp
    with k(4) v show False by blast
  qed
  from z c ne have e: "extractState a = c" by (simp add: extractState_def)
  from k45 have "k \<in> set [0..<46]" by simp
  with codes_before_WV have "snd (states_table ! k) \<noteq> ''WV''" by (rule bspec)
  with k(2) e have r1: "extractState a \<noteq> ''WV''" by simp
  have r2: "extractState a = ''VA''" if "\<forall>j<45. \<not> occursIn (fst (states_table ! j)) a"
  proof -
    from that k(3) have "\<not> k < 45" by blast
    with k45 have "k = 45" by simp
    with k(2) e entry_Virginia show ?thesis by simp
  qed
  from k45 k(3,4) k(2) e have r3: "\<exists>k\<le>45. occursIn (fst (states_table ! k)) a
              \<and> (\<forall>j<k. \<not> occursIn (fst (states_table ! j)) a)
              \<and> extractState a = snd (states_table ! k)" by auto
  from r1 r2 r3 show ?thesis by simp
qed

text \<open>
  The amended claim at \<open>Charleston, West Virginia\<close>.
\<close>

theorem west_virginia_name_lookup_witness:
  "\<not> (\<exists>i g. zipMatchAt ''Charleston, West Virginia'' i g)
   \<and> occursIn ''West Virginia'' ''Charleston, West Virginia''
   \<and> \<not> (\<exists>j<45. occursIn (fst (states_table ! j)) ''Charleston, West Virginia'')
   \<and> extractState ''Charleston, West Virginia'' = ''VA''
   \<and> extractState ''Charleston, West Virginia'' \<noteq> ''WV''"
proof -
  have "stateZipMatch ''Charleston, West Virginia'' = None" by code_simp
  then have h1: "\<forall>i g. \<not> zipMatchAt ''Charleston, West Virginia'' i g"
    by (simp only: no_zip_iff)
  have "includesStr ''Charleston, West Virginia'' ''West Virginia''" by code_simp
  then have h2: "occursIn ''West Virginia'' ''Charleston, West Virginia''"
    by (simp only: includesStr_iff)
  have "\<forall>j\<in>set [0..<45]. \<not> includesStr ''Charleston, West Virginia'' (fst (states_table ! j))"
    by code_simp
  then have h3: "\<forall>j<45. \<not> occursIn (fst (states_table ! j)) ''Charleston, West Virginia''"
    by (simp only: first_in_table_iff)
  from west_virginia_name_lookup [OF h1 h2] h3
  have "extractState ''Charleston, West Virginia'' \<noteq> ''WV''"
    "extractState ''Charleston, West Virginia'' = ''VA''" by simp_all
  with h1 h2 h3 show ?thesis by simp
qed

text \<open>
  Claim C10 as stated fails: this address has no ZIP match and contains
  \<open>West Virginia\<close>, and region derivation returns \<open>OH\<close>, since \<open>Ohio\<close> comes before
  \<open>Virginia\<close> in the table.
\<close>

theorem west_virginia_not_always_VA:
  "stateZipMatch ''1 Ohio St, Wheeling, West Virginia'' = None
   \<and> includesStr ''1 Ohio St, Wheeling, West Virginia'' ''West Virginia''
   \<and> extractState ''1 Ohio St, Wheeling, West Virginia'' = ''OH''"
  by code_simp

subsection \<open>Derived regions\<close>

lemma upper_not_dquote: "isUpper c \<Longrightarrow> c \<noteq> dquote"
  by (auto simp: isUpper_def dquote_def charCode_def)

lemma stateZipMatch_upper: "stateZipMatch a = Some g \<Longrightarrow> list_all isUpper g"
  by (induction a rule: stateZipMatch.induct) (auto split: if_splits)

lemma lookupName_in_table: "lookupName tbl a = Some c \<Longrightarrow> c \<in> snd ` set tbl"
  by (induction tbl a rule: lookupName.induct) (auto split: if_splits)

lemma table_codes_no_dquote: "\<forall>e\<in>set states_table. dquote \<notin> set (snd e)"
  by code_simp

lemma extractState_no_dquote: "dquote \<notin> set (extractState a)"
proof (cases "stateZipMatch a")
  case (Some g)
  then have "list_all isUpper g" by (rule stateZipMatch_upper)
  then have "dquote \<notin> set g" by (auto simp: list_all_iff dest: upper_not_dquote)
  with Some show ?thesis by (simp add: extractState_def dquote_def)
next
  case None
  show ?thesis
  proof (cases "lookupName states_table a")
    case (Some c)
    then have "c \<in> snd ` set states_table" by (rule lookupName_in_table)
    with table_codes_no_dquote have "dquote \<notin> set c" by auto
    with None Some show ?thesis by (simp add: extractState_def dquote_def)
  next
    case n: None
    with None show ?thesis by (simp add: extractState_def dquote_def)
  qed
qed

lemma stateZipMatch_length: "stateZipMatch a = Some g \<Longrightarrow> length g = 2"
  by (induction a rule: stateZipMatch.induct) (auto split: if_splits)

lemma table_codes_nonempty: "\<forall>e\<in>set states_table. snd e \<noteq> []"
  by code_simp

lemma extractState_nonempty: "extractState a \<noteq> []"
proof (cases "stateZipMatch a")
  case (Some g)
  then have "length g = 2" by (rule stateZipMatch_length)
  then have "g \<noteq> []" by auto
  with Some show ?thesis by (simp add: extractState_def)
next
  case None
  show ?thesis
  proof (cases "lookupName states_table a")
    case (Some c)
    then have "c \<in> snd ` set states_table" by (rule lookupName_in_table)
    with table_codes_nonempty have "c \<noteq> []" by auto
    with None Some show ?thesis by (simp add: extractState_def)
  next
    case n: None
    with None show ?thesis by (simp add: extractState_def)
  qed
qed

lemma scrapedCharity_state:
  "scrapedCharity nm addr site = Some c \<Longrightarrow> state c \<noteq> [] \<and> dquote \<notin> set (state c)"
  by (auto simp: scrapedCharity_def extractState_nonempty extractState_no_dquote split: if_splits)

subsection \<open>Regions of the record producers\<close>

lemma table_codes_regionCode: "\<forall>e\<in>set states_table. regionCode (snd e)"
  by code_simp

lemma regionCode_extractState: "regionCode (extractState a)"
proof (cases "stateZipMatch a")
  case (Some g)
  then have "length g = 2" "list_all isUpper g"
    by (rule stateZipMatch_length, rule stateZipMatch_upper)
  with Some show ?thesis by (simp add: extractState_def regionCode_def)
next
  case None
  show ?thesis
  proof (cases "lookupName states_table a")
    case (Some c)
    then have "c \<in> snd ` set states_table" by (rule lookupName_in_table)
    with table_codes_regionCode have "regionCode c" by auto
    with None Some show ?thesis by (simp add: extractState_def regionCode_def)
  next
    case n: None
    with None show ?thesis by (simp add: extractState_def regionCode_def)
  qed
qed

lemma regionCode_scraped: "scrapedCharity nm addr site = Some c \<Longrightarrow> regionCode (state c)"
  by (auto simp: scrapedCharity_def regionCode_extractState split: if_splits)

lemma regionsDerived_realCharityData: "regionsDerived realCharityData"
  by code_simp

lemma regionCode_statesList: "list_all regionCode statesList"
  by code_simp

lemma regionCode_nonempty: "regionCode r \<Longrightarrow> r \<noteq> []"
  by (auto simp: regionCode_def)

lemma regionCode_no_dquote: "regionCode r \<Longrightarrow> dquote \<notin> set r"
  by (auto simp: regionCode_def list_all_iff dquote_def dest: upper_not_dquote)

lemma regionCode_not_inherited: "regionCode r \<Longrightarrow> r \<noteq> ''__proto__'' \<and> r \<notin> set inheritedKeys"
  by (auto simp: regionCode_def inheritedKeys_def)

lemma regionsDerived_append [simp]:
  "regionsDerived (xs @ ys) \<longleftrightarrow> regionsDerived xs \<and> regionsDerived ys"
  by (simp add: regionsDerived_def)

lemma regionsDerived_Nil [simp]: "regionsDerived []"
  by (simp add: regionsDerived_def)

lemma regionsDerived_Cons [simp]:
  "regionsDerived (c # cs) \<longleftrightarrow> regionCode (state c) \<and> regionsDerived cs"
  by (simp add: regionsDerived_def)

subsection \<open>Invariants of the controller\<close>

lemmas ctrl_defs = processNextPage_begin_def processNextPage_resume_def processNextPage_def
  timerFires_def runEffect_def startScraping_def pauseScraping_def resetScraper_def
  addLogMessage_def saveData_def exportToCSV_def capture_def fetches_def Let_def

lemma mount_cases:
  "mount ls = Some s \<Longrightarrow>
     \<not> isRunning s \<and> \<not> isProcessing s \<and> loop s = NoLoop \<and> processedCount s = 0
     \<and> currentPage s = 1 \<and> hasMorePages s \<and> ls \<noteq> Some NotRecords
     \<and> (localStorage s = ls \<or> (\<exists>d. ls = Some (Parsed d) \<and> localStorage s = Some (Parsed d)))"
  by (auto simp: mount_def loadSaved_def initialApp_def addLogMessage_def saveData_def
      split: option.splits stored.splits if_splits)

lemma mount_None: "mount None = Some (initialApp None)"
  by (simp add: mount_def loadSaved_def initialApp_def)

lemma mount_Some_iff: "(\<exists>s. mount ls = Some s) \<longleftrightarrow> ls \<noteq> Some NotRecords"
  by (auto simp: mount_def loadSaved_def initialApp_def split: option.splits stored.splits)

lemma controllerOk_mount: "mount ls = Some s \<Longrightarrow> controllerOk s"
  by (drule mount_cases) (auto simp: controllerOk_def)

lemma controllerOk_resume:
  assumes "controllerOk s" "loop s = AwaitingFetch c"
  shows "controllerOk (runEffect (processNextPage_resume c s r))"
proof -
  from assms have f: "isProcessing s" "hasMorePages s \<or> currentPage s \<le> 1"
    "processedCount s < 1000" "fetches c" "localStorage s \<noteq> Some NotRecords"
    by (auto simp: controllerOk_def)
  show ?thesis
  proof (cases r)
    case (Rejected e)
    with f show ?thesis by (simp add: controllerOk_def ctrl_defs)
  next
    case (Resolved cs hm)
    with f show ?thesis by (auto simp: controllerOk_def ctrl_defs)
  qed
qed

lemma controllerOk_timer:
  assumes "controllerOk s" "loop s = AwaitingTimer c"
  shows "controllerOk (runEffect (timerFires c s))"
  using assms by (auto simp: controllerOk_def ctrl_defs)

lemma controllerOk_start:
  assumes "controllerOk s" "\<not> isRunning s" "\<not> isProcessing s"
    "\<not> (\<not> hasMorePages s \<and> currentPage s > 1)"
  shows "controllerOk (runEffect (startScraping s))"
  using assms by (auto simp: controllerOk_def ctrl_defs)

lemma controllerOk_idle:
  assumes "controllerOk s"
  shows "controllerOk (runEffect s)"
  using assms by (auto simp: controllerOk_def ctrl_defs)

lemma controllerOk_pause:
  assumes "controllerOk s"
  shows "controllerOk (runEffect (pauseScraping s))"
  using assms by (auto simp: controllerOk_def ctrl_defs)

lemma controllerOk_reset:
  assumes "controllerOk s" "\<not> isProcessing s"
  shows "controllerOk (runEffect (resetScraper b s))"
  using assms by (auto simp: controllerOk_def ctrl_defs)

lemma controllerOk_export:
  assumes "controllerOk s"
  shows "controllerOk (runEffect (fst (exportToCSV lc s)))"
  using assms by (auto simp: controllerOk_def ctrl_defs)

lemma controllerOk_edit:
  assumes "controllerOk s" "\<not> isRunning s"
  shows "controllerOk (runEffect (s\<lparr>sourceUrl := u\<rparr>))"
  using assms by (auto simp: controllerOk_def ctrl_defs)

lemma runEffect_mount: "mount ls = Some s \<Longrightarrow> runEffect s = s"
  by (drule mount_cases) (simp add: runEffect_def)

lemma step_total_ok:
  assumes "controllerOk s"
  shows "\<exists>s'. step lc s e = Some s' \<and> controllerOk s'"
proof (cases e)
  case Start
  with assms show ?thesis
    by (auto simp: step_def controllerOk_idle controllerOk_start)
next
  case Pause
  with assms show ?thesis by (auto simp: step_def controllerOk_idle controllerOk_pause)
next
  case (Reset b)
  with assms show ?thesis by (auto simp: step_def controllerOk_idle controllerOk_reset)
next
  case (FetchSettles r)
  with assms show ?thesis
    by (cases "loop s") (auto simp: step_def controllerOk_idle controllerOk_resume)
next
  case TimerElapses
  with assms show ?thesis
    by (cases "loop s") (auto simp: step_def controllerOk_idle controllerOk_timer)
next
  case Export
  with assms show ?thesis by (auto simp: step_def controllerOk_idle controllerOk_export)
next
  case (EditSourceUrl u)
  with assms show ?thesis by (auto simp: step_def controllerOk_idle controllerOk_edit)
next
  case Reload
  from assms have "localStorage s \<noteq> Some NotRecords" by (simp add: controllerOk_def)
  then obtain s' where m: "mount (localStorage s) = Some s'" using mount_Some_iff by blast
  then have "controllerOk s'" "runEffect s' = s'"
    by (rule controllerOk_mount, rule runEffect_mount)
  with Reload m show ?thesis by (simp add: step_def)
qed

lemma run_total_ok:
  assumes "controllerOk s"
  shows "\<exists>s'. run lc s evs = Some s' \<and> controllerOk s'"
  using assms
proof (induction evs arbitrary: s)
  case Nil
  then show ?case by simp
next
  case (Cons e evs)
  from step_total_ok [OF Cons.prems] obtain s1 where s1: "step lc s e = Some s1" "controllerOk s1"
    by blast
  from Cons.IH [OF s1(2)] s1(1) show ?case by simp
qed

lemma run_append:
  "run lc s (xs @ ys) = (case run lc s xs of None \<Rightarrow> None | Some s' \<Rightarrow> run lc s' ys)"
  by (induction xs arbitrary: s) (auto split: option.splits)


subsection \<open>The batch ceiling, empty pages and reset\<close>

lemma begin_fetches:
  assumes "seenRunning c" "seenCount c < 1000"
  shows "processNextPage_begin c s =
     s\<lparr>isProcessing := True,
       log := log s @ [''Processing page '' @ showNat (seenPage c) @ ''...''],
       loop := AwaitingFetch c\<rparr>"
  using assms by (simp add: ctrl_defs)

lemma begin_returns:
  assumes "\<not> seenRunning c \<or> 1000 \<le> seenCount c"
  shows "processNextPage_begin c s = s\<lparr>isProcessing := False\<rparr>"
  using assms by (auto simp: ctrl_defs)

lemma resume_batch_full:
  assumes "cs \<noteq> []" "1000 \<le> seenCount c + length cs"
  shows "processNextPage_resume c s (Resolved cs hm) =
     s\<lparr>isRunning := False, isProcessing := False, loop := NoLoop,
       states := countStates (states s) cs, charityData := charityData s @ cs,
       currentPage := currentPage s + 1, processedCount := 1000,
       localStorage := Some (Parsed (charityData s @ cs)),
       log := log s @ [''Processed page '' @ showNat (seenPage c) @ '', found ''
                               @ showNat (length cs) @ '' new items'',
                       ''Batch complete. Click '' @ [dquote] @ ''Continue'' @ [dquote]
                           @ '' to process the next batch.'']\<rparr>"
  using assms by (simp add: ctrl_defs)

lemma resume_continues:
  assumes "cs \<noteq> []" "seenCount c + length cs < 1000"
  shows "processNextPage_resume c s (Resolved cs True) =
     s\<lparr>hasMorePages := True, loop := AwaitingTimer c,
       states := countStates (states s) cs, charityData := charityData s @ cs,
       currentPage := currentPage s + 1, processedCount := seenCount c + length cs,
       localStorage := Some (Parsed (charityData s @ cs)),
       log := log s @ [''Processed page '' @ showNat (seenPage c) @ '', found ''
                               @ showNat (length cs) @ '' new items'']\<rparr>"
  using assms by (simp add: ctrl_defs)

lemma resume_empty:
  "processNextPage_resume c s (Resolved [] hm) =
     s\<lparr>hasMorePages := False, isRunning := False, isProcessing := False, loop := NoLoop,
       log := log s @ [''No more items found. Scraping complete.'']\<rparr>"
  by (simp add: ctrl_defs)

lemma resume_rejected:
  "processNextPage_resume c s (Rejected e) =
     s\<lparr>isRunning := False, isProcessing := False, loop := NoLoop,
       log := log s @ [''Error processing page '' @ showNat (seenPage c) @ '': ''
                         @ (case e of Some m \<Rightarrow> m | None \<Rightarrow> ''Unknown error'')]\<rparr>"
  by (simp add: ctrl_defs)

lemma resume_count_1000:
  assumes "cs \<noteq> []" "processedCount (processNextPage_resume c s (Resolved cs hm)) = 1000"
  shows "1000 \<le> seenCount c + length cs"
proof (rule ccontr)
  assume "\<not> 1000 \<le> seenCount c + length cs"
  then have "seenCount c + length cs < 1000" by simp
  with assms(1) have "processedCount (processNextPage_resume c s (Resolved cs hm))
      = seenCount c + length cs"
    by (simp add: ctrl_defs)
  with assms(2) \<open>seenCount c + length cs < 1000\<close> show False by simp
qed

text \<open>
  Claim C1. From any mount, every sequence of events runs through and leaves
  \<open>processedCount\<close> at most 1000. A page that takes the counter to 1000 or beyond, counted
  as the code counts it, from the counter its closure has seen, leaves it at exactly 1000
  and halts the controller: \<open>isRunning\<close> and \<open>isProcessing\<close> are cleared, no timer is set,
  the batch message is the last log entry, not the completion message, and \<open>hasMorePages\<close>
  is as it was. Conversely, whenever a page leaves the counter at 1000 the controller has
  halted in this way. This holds for whatever state the records are merged into, and for a
  whole call of \<open>processNextPage\<close> as well.
\<close>

theorem batch_ceiling:
  "(mount ls = Some s0 \<longrightarrow> (\<exists>t. run lc s0 evs = Some t \<and> processedCount t \<le> 1000))
   \<and> (cs \<noteq> [] \<and> 1000 \<le> seenCount c + length cs \<longrightarrow>
         processedCount (processNextPage_resume c s (Resolved cs hm)) = 1000
       \<and> \<not> isRunning (processNextPage_resume c s (Resolved cs hm))
       \<and> \<not> isProcessing (processNextPage_resume c s (Resolved cs hm))
       \<and> loop (processNextPage_resume c s (Resolved cs hm)) = NoLoop
       \<and> hasMorePages (processNextPage_resume c s (Resolved cs hm)) = hasMorePages s
       \<and> last (log (processNextPage_resume c s (Resolved cs hm))) =
            ''Batch complete. Click '' @ [dquote] @ ''Continue'' @ [dquote]
               @ '' to process the next batch.'')
   \<and> (cs \<noteq> [] \<and> processedCount (processNextPage_resume c s (Resolved cs hm)) = 1000 \<longrightarrow>
         \<not> isRunning (processNextPage_resume c s (Resolved cs hm))
       \<and> loop (processNextPage_resume c s (Resolved cs hm)) = NoLoop
       \<and> hasMorePages (processNextPage_resume c s (Resolved cs hm)) = hasMorePages s
       \<and> last (log (processNextPage_resume c s (Resolved cs hm))) =
            ''Batch complete. Click '' @ [dquote] @ ''Continue'' @ [dquote]
               @ '' to process the next batch.'')
   \<and> (seenRunning c \<and> seenCount c < 1000 \<and> cs \<noteq> [] \<and> 1000 \<le> seenCount c + length cs \<longrightarrow>
         processedCount (processNextPage c s (Resolved cs hm)) = 1000
       \<and> \<not> isRunning (processNextPage c s (Resolved cs hm))
       \<and> \<not> isProcessing (processNextPage c s (Resolved cs hm))
       \<and> loop (processNextPage c s (Resolved cs hm)) = NoLoop
       \<and> hasMorePages (processNextPage c s (Resolved cs hm)) = hasMorePages s
       \<and> last (log (processNextPage c s (Resolved cs hm))) =
            ''Batch complete. Click '' @ [dquote] @ ''Continue'' @ [dquote]
               @ '' to process the next batch.'')"
proof -
  have a: "\<exists>t. run lc s0 evs = Some t \<and> processedCount t \<le> 1000" if "mount ls = Some s0"
  proof -
    from that have "controllerOk s0" by (rule controllerOk_mount)
    from run_total_ok [OF this, of lc evs] show ?thesis by (auto simp: controllerOk_def)
  qed
  have b: "processedCount (processNextPage_resume c s (Resolved cs hm)) = 1000
       \<and> \<not> isRunning (processNextPage_resume c s (Resolved cs hm))
       \<and> \<not> isProcessing (processNextPage_resume c s (Resolved cs hm))
       \<and> loop (processNextPage_resume c s (Resolved cs hm)) = NoLoop
       \<and> hasMorePages (processNextPage_resume c s (Resolved cs hm)) = hasMorePages s
       \<and> last (log (processNextPage_resume c s (Resolved cs hm))) =
            ''Batch complete. Click '' @ [dquote] @ ''Continue'' @ [dquote]
               @ '' to process the next batch.''"
    if "cs \<noteq> []" "1000 \<le> seenCount c + length cs" for s
    by (simp add: resume_batch_full [OF that])
  have d: "processedCount (processNextPage c s (Resolved cs hm)) = 1000
       \<and> \<not> isRunning (processNextPage c s (Resolved cs hm))
       \<and> \<not> isProcessing (processNextPage c s (Resolved cs hm))
       \<and> loop (processNextPage c s (Resolved cs hm)) = NoLoop
       \<and> hasMorePages (processNextPage c s (Resolved cs hm)) = hasMorePages s
       \<and> last (log (processNextPage c s (Resolved cs hm))) =
            ''Batch complete. Click '' @ [dquote] @ ''Continue'' @ [dquote]
               @ '' to process the next batch.''"
    if "seenRunning c" "seenCount c < 1000" "cs \<noteq> []" "1000 \<le> seenCount c + length cs"
  proof -
    from that(1,2) have "processNextPage c s (Resolved cs hm)
        = processNextPage_resume c (processNextPage_begin c s) (Resolved cs hm)"
      by (simp add: processNextPage_def)
    with b [OF that(3,4), of "processNextPage_begin c s"] that(1,2) show ?thesis
      by (simp add: begin_fetches)
  qed
  from a b d resume_count_1000 show ?thesis by blast
qed

text \<open>
  Claim C7. When \<open>processNextPage\<close> fetches (its closure is running below the batch
  limit) and the page is empty, it clears \<open>hasMorePages\<close>, halts with the completion
  message, whatever the continuation flag, and leaves the record store, the tally, the
  cursor, \<open>processedCount\<close> and the stored snapshot as they were. The same holds for the
  part of the call that follows the fetch, in whatever state the outcome arrives.
\<close>

theorem empty_page_completes:
  "(seenRunning c \<and> seenCount c < 1000 \<longrightarrow>
       \<not> hasMorePages (processNextPage c s (Resolved [] hm))
     \<and> \<not> isRunning (processNextPage c s (Resolved [] hm))
     \<and> \<not> isProcessing (processNextPage c s (Resolved [] hm))
     \<and> loop (processNextPage c s (Resolved [] hm)) = NoLoop
     \<and> last (log (processNextPage c s (Resolved [] hm))) = ''No more items found. Scraping complete.''
     \<and> charityData (processNextPage c s (Resolved [] hm)) = charityData s
     \<and> states (processNextPage c s (Resolved [] hm)) = states s
     \<and> currentPage (processNextPage c s (Resolved [] hm)) = currentPage s
     \<and> processedCount (processNextPage c s (Resolved [] hm)) = processedCount s
     \<and> localStorage (processNextPage c s (Resolved [] hm)) = localStorage s)
   \<and> \<not> hasMorePages (processNextPage_resume c s (Resolved [] hm))
   \<and> \<not> isRunning (processNextPage_resume c s (Resolved [] hm))
   \<and> \<not> isProcessing (processNextPage_resume c s (Resolved [] hm))
   \<and> loop (processNextPage_resume c s (Resolved [] hm)) = NoLoop
   \<and> last (log (processNextPage_resume c s (Resolved [] hm))) = ''No more items found. Scraping complete.''
   \<and> charityData (processNextPage_resume c s (Resolved [] hm)) = charityData s
   \<and> states (processNextPage_resume c s (Resolved [] hm)) = states s
   \<and> currentPage (processNextPage_resume c s (Resolved [] hm)) = currentPage s
   \<and> processedCount (processNextPage_resume c s (Resolved [] hm)) = processedCount s
   \<and> localStorage (processNextPage_resume c s (Resolved [] hm)) = localStorage s"
  by (simp add: processNextPage_def begin_fetches resume_empty)

text \<open>
  Claim C8. After a reset that the user confirms, from any state, the record store is
  empty, the tally is the empty map, the cursor is 1, \<open>processedCount\<close> is 0, the
  controller is not running and \<open>hasMorePages\<close> is true, and the local-storage entry is
  absent and stays absent when the saving effect runs.
\<close>

theorem reset_clears_everything:
  "charityData (resetScraper True s) = []
   \<and> states (resetScraper True s) = Map.empty
   \<and> currentPage (resetScraper True s) = 1
   \<and> processedCount (resetScraper True s) = 0
   \<and> \<not> isRunning (resetScraper True s)
   \<and> \<not> isProcessing (resetScraper True s)
   \<and> hasMorePages (resetScraper True s)
   \<and> localStorage (resetScraper True s) = None
   \<and> localStorage (saveData (resetScraper True s)) = None
   \<and> log (resetScraper True s) = [''Scraper reset. Ready to start.'']"
  by (simp add: ctrl_defs)

subsection \<open>Tally and record store\<close>

lemma tallyOf_Nil [simp]: "tallyOf [] = Map.empty"
  by (rule ext) (simp add: tallyOf_def recordsInRegion_def)

lemma recordsInRegion_append [simp]:
  "recordsInRegion (xs @ ys) r = recordsInRegion xs r + recordsInRegion ys r"
  by (simp add: recordsInRegion_def)

lemma recordsInRegion_single [simp]:
  "recordsInRegion [c] r = (if state c = r then 1 else 0)"
  by (simp add: recordsInRegion_def)

lemma tallyCount_tallyOf [simp]: "tallyCount (tallyOf cs) r = recordsInRegion cs r"
  by (simp add: tallyCount_def tallyOf_def)

lemma numericTally_tallyOf [simp]: "numericTally (tallyOf cs)"
  by (simp add: numericTally_def tallyOf_def)

lemma stateKey_derived: "regionCode (state c) \<Longrightarrow> stateKey c = state c"
  by (auto simp: stateKey_def dest: regionCode_nonempty)

lemma countCharity_derived:
  assumes "regionCode (state c)" "numericTally m"
  shows "countCharity m c = m(state c \<mapsto> Count (tallyCount m (state c) + 1))"
proof -
  from assms(1) have k: "stateKey c = state c" "state c \<noteq> ''__proto__''"
    "state c \<notin> set inheritedKeys"
    using regionCode_not_inherited by (simp_all add: stateKey_derived)
  from assms(2) have "m (state c) \<noteq> Some NotANumber" by (simp add: numericTally_def)
  then show ?thesis
    by (cases "m (state c)"; cases "the (m (state c))")
       (simp_all add: countCharity_def k tallyCount_def)
qed

lemma numericTally_countCharity:
  assumes "regionCode (state c)" "numericTally m"
  shows "numericTally (countCharity m c)"
  using assms(2) by (simp add: countCharity_derived [OF assms] numericTally_def)

lemma tallyCount_countCharity:
  assumes "regionCode (state c)" "numericTally m"
  shows "tallyCount (countCharity m c) r = tallyCount m r + (if state c = r then 1 else 0)"
  by (simp add: countCharity_derived [OF assms] tallyCount_def)

lemma countStates_derived:
  assumes "regionsDerived cs" "numericTally m"
  shows "numericTally (countStates m cs)
       \<and> (\<forall>r. tallyCount (countStates m cs) r = tallyCount m r + recordsInRegion cs r)"
  using assms unfolding countStates_def
proof (induction cs arbitrary: m)
  case Nil
  then show ?case by (simp add: recordsInRegion_def)
next
  case (Cons c cs)
  from Cons.prems have c: "regionCode (state c)" and cs: "regionsDerived cs" by simp_all
  note n = numericTally_countCharity [OF c Cons.prems(2)]
  from Cons.IH [OF cs n] show ?case
    by (simp add: tallyCount_countCharity [OF c Cons.prems(2)] recordsInRegion_def)
qed

lemma countCharity_tallyOf:
  assumes "regionCode (state c)"
  shows "countCharity (tallyOf xs) c = tallyOf (xs @ [c])"
proof (rule ext)
  fix r
  show "countCharity (tallyOf xs) c r = tallyOf (xs @ [c]) r"
    by (simp add: countCharity_derived [OF assms numericTally_tallyOf]) (simp add: tallyOf_def)
qed

lemma countStates_tallyOf:
  assumes "regionsDerived cs"
  shows "countStates (tallyOf xs) cs = tallyOf (xs @ cs)"
  using assms unfolding countStates_def
proof (induction cs arbitrary: xs)
  case Nil
  then show ?case by simp
next
  case (Cons c cs)
  from Cons.prems have c: "regionCode (state c)" and cs: "regionsDerived cs" by simp_all
  from Cons.IH [OF cs, of "xs @ [c]"] show ?case
    by (simp add: countCharity_tallyOf [OF c])
qed

lemma recordsInRegion_count_list: "recordsInRegion cs r = count_list (map state cs) r"
  by (induction cs) (auto simp: recordsInRegion_def)

lemma dom_tallyOf: "dom (tallyOf cs) = state ` set cs"
proof -
  have "recordsInRegion cs r \<noteq> 0 \<longleftrightarrow> r \<in> state ` set cs" for r
    by (auto simp: recordsInRegion_def filter_empty_conv)
  then show ?thesis by (auto simp: tallyOf_def dom_def)
qed

lemma tallyTotal_tallyOf: "tallyTotal (tallyOf cs) = length cs"
proof -
  have "(\<Sum>r\<in>state ` set cs. count_list (map state cs) r) = length (map state cs)"
    by (rule sum_count_set) auto
  then show ?thesis
    by (simp add: tallyTotal_def dom_tallyOf recordsInRegion_count_list)
qed

lemma tallyOk_mount:
  assumes "storedDerived ls" "mount ls = Some s"
  shows "tallyOk s"
  using assms countStates_tallyOf [of _ "[]"]
  by (auto simp: mount_def loadSaved_def initialApp_def addLogMessage_def saveData_def tallyOk_def
      storedDerived_def split: option.splits stored.splits if_splits)

lemma tallyOk_runEffect: "tallyOk s \<Longrightarrow> tallyOk (runEffect s)"
  by (auto simp: tallyOk_def ctrl_defs)

lemma tallyOk_resume:
  assumes "tallyOk s" "eventDerived (FetchSettles r)"
  shows "tallyOk (processNextPage_resume c s r)"
proof (cases r)
  case (Rejected e)
  with assms show ?thesis by (simp add: tallyOk_def resume_rejected)
next
  case (Resolved cs hm)
  with assms have d: "regionsDerived cs" by simp
  from assms(1) d Resolved show ?thesis
    by (auto simp: tallyOk_def ctrl_defs countStates_tallyOf storedDerived_def)
qed

lemma tallyOk_step:
  assumes "tallyOk s" "eventDerived e" "step lc s e = Some s'"
  shows "tallyOk s'"
proof -
  from assms(3) obtain h where h: "handleEvent lc s e = Some h" "s' = runEffect h"
    by (auto simp: step_def)
  have "tallyOk h"
  proof (cases e)
    case (FetchSettles r)
    with assms(1,2) h(1) show ?thesis
      by (cases "loop s") (auto simp: tallyOk_resume)
  next
    case Reload
    with h(1) have m: "mount (localStorage s) = Some h" by simp
    from assms(1) have "storedDerived (localStorage s)" by (simp add: tallyOk_def)
    then show ?thesis using m by (rule tallyOk_mount)
  next
    case Start
    with assms(1) h(1) show ?thesis by (auto simp: tallyOk_def ctrl_defs)
  next
    case Pause
    with assms(1) h(1) show ?thesis by (auto simp: tallyOk_def ctrl_defs)
  next
    case (Reset b)
    with assms(1) h(1) show ?thesis by (auto simp: tallyOk_def ctrl_defs storedDerived_def)
  next
    case TimerElapses
    with assms(1) h(1) show ?thesis by (cases "loop s") (auto simp: tallyOk_def ctrl_defs)
  next
    case Export
    with assms(1) h(1) show ?thesis by (auto simp: tallyOk_def ctrl_defs)
  next
    case (EditSourceUrl u)
    with assms(1) h(1) show ?thesis by (auto simp: tallyOk_def)
  qed
  with h(2) show ?thesis by (simp add: tallyOk_runEffect)
qed

lemma tallyOk_run:
  assumes "tallyOk s" "list_all eventDerived evs" "run lc s evs = Some s'"
  shows "tallyOk s'"
  using assms
proof (induction evs arbitrary: s)
  case Nil
  then show ?case by simp
next
  case (Cons e evs)
  from Cons.prems(3) obtain s1 where s1: "step lc s e = Some s1" "run lc s1 evs = Some s'"
    by (auto split: option.splits)
  from Cons.prems(1,2) s1(1) have "tallyOk s1" by (auto intro: tallyOk_step)
  with Cons.IH s1(2) Cons.prems(2) show ?case by simp
qed

subsection \<open>Steps of concrete runs\<close>


lemma runEffect_resume:
  assumes "isProcessing s"
  shows "runEffect (processNextPage_resume c s r) = processNextPage_resume c s r"
  using assms by (cases r) (auto simp: ctrl_defs)

lemma step_fetch:
  assumes "loop s = AwaitingFetch c" "isProcessing s"
  shows "step lc s (FetchSettles r) = Some (processNextPage_resume c s r)"
  using assms by (simp add: step_def runEffect_resume)

lemma step_timer:
  assumes "loop s = AwaitingTimer c" "seenRunning c" "seenCount c < 1000"
  shows "step lc s TimerElapses =
     Some (s\<lparr>isProcessing := True,
             log := log s @ [''Processing page '' @ showNat (seenPage c) @ ''...''],
             loop := AwaitingFetch c\<rparr>)"
  using assms by (simp add: step_def timerFires_def begin_fetches runEffect_def)

lemma start_accepted:
  assumes "\<not> isRunning s" "\<not> isProcessing s" "hasMorePages s \<or> currentPage s \<le> 1"
  shows "step lc s Start = Some (runEffect (startScraping s))"
  using assms by (auto simp: step_def)


lemma start_at_limit:
  assumes "\<not> isRunning s" "hasMorePages s \<or> currentPage s \<le> 1" "1000 \<le> processedCount s"
    "\<not> isProcessing s"
  shows "runEffect (startScraping s) =
     s\<lparr>scraperConfig := sourceUrl s, isRunning := True,
       log := log s @ [''Using source URL: '' @ sourceUrl s, ''Starting scraper...'']\<rparr>"
  using assms by (auto simp: ctrl_defs)

lemma startedApp_fields:
  "loop startedApp = AwaitingFetch firstClosure" "isProcessing startedApp" "isRunning startedApp"
  "charityData startedApp = []" "states startedApp = Map.empty" "currentPage startedApp = 1"
  "processedCount startedApp = 0" "hasMorePages startedApp" "localStorage startedApp = None"
  by (simp_all add: startedApp_def firstClosure_def ctrl_defs initialApp_def)

lemma firstClosure_fields [simp]:
  "seenRunning firstClosure" "seenCount firstClosure = 0" "seenPage firstClosure = 1"
  by (simp_all add: firstClosure_def)

lemma run_start: "run lc (initialApp None) (Start # evs) = run lc startedApp evs"
  by (simp add: startedApp_def step_def initialApp_def)

lemma run_first_page:
  "run lc (initialApp None) (Start # FetchSettles r # evs)
     = run lc (processNextPage_resume firstClosure startedApp r) evs"
  by (subst run_start) (simp add: step_fetch startedApp_fields)

subsection \<open>Concrete runs\<close>

text \<open>
  A page of 600 records, the timer, and a page of 1000 records: the run goes through; and
  a first page of 1000 records, with the source reporting no further page, leaves the
  counter at 1000, the controller halted and \<open>hasMorePages\<close> still true.
\<close>

theorem batch_ceiling_witness:
  "mount None = Some (initialApp None)
   \<and> run compareCodeUnits (initialApp None)
        [Start, FetchSettles (Resolved (replicate 600 sampleCharity) True), TimerElapses,
         FetchSettles (Resolved (replicate 1000 sampleCharity) False)]
       = Some (processNextPage_resume firstClosure
           ((processNextPage_resume firstClosure startedApp (Resolved (replicate 600 sampleCharity) True))
              \<lparr>isProcessing := True,
                log := log (processNextPage_resume firstClosure startedApp
                         (Resolved (replicate 600 sampleCharity) True))
                       @ [''Processing page '' @ showNat 1 @ ''...''],
                loop := AwaitingFetch firstClosure\<rparr>)
           (Resolved (replicate 1000 sampleCharity) False))
   \<and> replicate 1000 sampleCharity \<noteq> []
   \<and> seenRunning firstClosure \<and> seenCount firstClosure < 1000
   \<and> 1000 \<le> seenCount firstClosure + length (replicate 1000 sampleCharity)
   \<and> processedCount (processNextPage_resume firstClosure startedApp
        (Resolved (replicate 1000 sampleCharity) False)) = 1000
   \<and> \<not> isRunning (processNextPage_resume firstClosure startedApp
        (Resolved (replicate 1000 sampleCharity) False))
   \<and> hasMorePages (processNextPage_resume firstClosure startedApp
        (Resolved (replicate 1000 sampleCharity) False))
   \<and> processedCount (processNextPage_resume firstClosure startedApp
        (Resolved (replicate 600 sampleCharity) True)) = 600"
proof -
  let ?p600 = "processNextPage_resume firstClosure startedApp (Resolved (replicate 600 sampleCharity) True)"
  have c: "?p600 = startedApp\<lparr>hasMorePages := True, loop := AwaitingTimer firstClosure,
       states := countStates (states startedApp) (replicate 600 sampleCharity),
       charityData := charityData startedApp @ replicate 600 sampleCharity,
       currentPage := currentPage startedApp + 1,
       processedCount := seenCount firstClosure + length (replicate 600 sampleCharity),
       localStorage := Some (Parsed (charityData startedApp @ replicate 600 sampleCharity)),
       log := log startedApp @ [''Processed page '' @ showNat (seenPage firstClosure) @ '', found ''
                               @ showNat (length (replicate 600 sampleCharity)) @ '' new items'']\<rparr>"
    by (rule resume_continues) simp_all
  have f: "loop ?p600 = AwaitingTimer firstClosure" "processedCount ?p600 = 600"
    unfolding c by simp_all
  have t: "step compareCodeUnits ?p600 TimerElapses =
     Some (?p600\<lparr>isProcessing := True,
             log := log ?p600 @ [''Processing page '' @ showNat (seenPage firstClosure) @ ''...''],
             loop := AwaitingFetch firstClosure\<rparr>)"
    by (rule step_timer) (simp_all add: f)
  have r: "run compareCodeUnits (initialApp None)
        [Start, FetchSettles (Resolved (replicate 600 sampleCharity) True), TimerElapses,
         FetchSettles (Resolved (replicate 1000 sampleCharity) False)]
       = Some (processNextPage_resume firstClosure
           (?p600\<lparr>isProcessing := True,
                log := log ?p600 @ [''Processing page '' @ showNat 1 @ ''...''],
                loop := AwaitingFetch firstClosure\<rparr>)
           (Resolved (replicate 1000 sampleCharity) False))"
    by (subst run_first_page) (simp add: t step_fetch)
  have h: "replicate 1000 sampleCharity \<noteq> []"
    "1000 \<le> seenCount firstClosure + length (replicate 1000 sampleCharity)"
    by simp_all
  note b = batch_ceiling [of None "initialApp None" compareCodeUnits
      "[Start, FetchSettles (Resolved (replicate 600 sampleCharity) True), TimerElapses,
        FetchSettles (Resolved (replicate 1000 sampleCharity) False)]"
      "replicate 1000 sampleCharity" firstClosure startedApp False]
  from b h have "processedCount (processNextPage_resume firstClosure startedApp
        (Resolved (replicate 1000 sampleCharity) False)) = 1000"
    "\<not> isRunning (processNextPage_resume firstClosure startedApp
        (Resolved (replicate 1000 sampleCharity) False))"
    "hasMorePages (processNextPage_resume firstClosure startedApp
        (Resolved (replicate 1000 sampleCharity) False)) = hasMorePages startedApp"
    by blast+
  with h r f(2) mount_None show ?thesis by (simp add: startedApp_fields)
qed

text \<open>
  An empty first page with the continuation flag set.
\<close>

theorem empty_page_completes_witness:
  "seenRunning (capture startedApp) \<and> seenCount (capture startedApp) < 1000
   \<and> \<not> hasMorePages (processNextPage (capture startedApp) startedApp (Resolved [] True))
   \<and> \<not> isRunning (processNextPage (capture startedApp) startedApp (Resolved [] True))
   \<and> currentPage (processNextPage (capture startedApp) startedApp (Resolved [] True)) = 1
   \<and> charityData (processNextPage (capture startedApp) startedApp (Resolved [] True)) = []
   \<and> run compareCodeUnits (initialApp None) [Start, FetchSettles (Resolved [] True)]
        = Some (processNextPage_resume firstClosure startedApp (Resolved [] True))
   \<and> \<not> hasMorePages (processNextPage_resume firstClosure startedApp (Resolved [] True))"
proof -
  have h: "seenRunning (capture startedApp) \<and> seenCount (capture startedApp) < 1000"
    by (simp add: capture_def startedApp_fields)
  note t = empty_page_completes [of "capture startedApp" startedApp True]
  note u = empty_page_completes [of firstClosure startedApp True]
  from t h have a: "\<not> hasMorePages (processNextPage (capture startedApp) startedApp (Resolved [] True))"
    "\<not> isRunning (processNextPage (capture startedApp) startedApp (Resolved [] True))"
    "currentPage (processNextPage (capture startedApp) startedApp (Resolved [] True))
       = currentPage startedApp"
    "charityData (processNextPage (capture startedApp) startedApp (Resolved [] True))
       = charityData startedApp"
    by blast+
  from u have b: "\<not> hasMorePages (processNextPage_resume firstClosure startedApp (Resolved [] True))"
    by blast
  have r: "run compareCodeUnits (initialApp None) [Start, FetchSettles (Resolved [] True)]
        = Some (processNextPage_resume firstClosure startedApp (Resolved [] True))"
    by (subst run_first_page) simp
  from h a b r show ?thesis by (simp add: startedApp_fields)
qed

text \<open>
  Reset after one stored page: the snapshot written by that page is gone.
\<close>

theorem reset_clears_everything_witness:
  "charityData (resetScraper True (processNextPage_resume firstClosure startedApp
        (Resolved [sampleCharity] True))) = []
   \<and> localStorage (resetScraper True (processNextPage_resume firstClosure startedApp
        (Resolved [sampleCharity] True))) = None
   \<and> localStorage (processNextPage_resume firstClosure startedApp
        (Resolved [sampleCharity] True)) = Some (Parsed [sampleCharity])"
  using reset_clears_everything [of "processNextPage_resume firstClosure startedApp
        (Resolved [sampleCharity] True)"]
  by (simp add: resume_continues startedApp_fields)

subsection \<open>Restart at the batch limit and failed fetches\<close>

lemma step_loopEvent_idle:
  assumes "loop s = NoLoop" "\<not> isProcessing s" "isRunning s" "1000 \<le> processedCount s"
    "loopEvent e"
  shows "step lc s e = Some s"
proof -
  from assms(2-4) have r: "runEffect s = s"
    by (simp add: runEffect_def begin_returns capture_def)
  from assms(1,5) have "handleEvent lc s e = Some s" by (cases e) simp_all
  with r show ?thesis by (simp add: step_def)
qed

lemma run_loopEvents_idle:
  assumes "loop s = NoLoop" "\<not> isProcessing s" "isRunning s" "1000 \<le> processedCount s"
    "list_all loopEvent evs"
  shows "run lc s evs = Some s"
  using assms(5)
proof (induction evs)
  case Nil
  then show ?case by simp
next
  case (Cons e evs)
  then have "loopEvent e" "list_all loopEvent evs" by simp_all
  with Cons.IH step_loopEvent_idle [OF assms(1-4), of e lc] show ?case by simp
qed

text \<open>
  Claim C2, on the code. Once the controller has halted with \<open>processedCount\<close> at 1000
  and \<open>hasMorePages\<close> still true, Start is accepted and sets \<open>isRunning\<close>, but the call
  of \<open>processNextPage\<close> that the effect makes takes the guard's early return: no page is
  fetched and no loop starts, and whatever the source or the timer would deliver afterwards
  the cursor, the record store and the log stay as they are. The claim says the loop
  fetches at least one further page.
\<close>

theorem start_after_batch_limit_fetches_nothing:
  assumes "processedCount s = 1000" "\<not> isRunning s" "\<not> isProcessing s" "hasMorePages s"
    "loop s = NoLoop"
  shows "step lc s Start = Some (runEffect (startScraping s))
       \<and> isRunning (runEffect (startScraping s))
       \<and> loop (runEffect (startScraping s)) = NoLoop
       \<and> processNextPage (capture (runEffect (startScraping s))) (runEffect (startScraping s)) r
            = runEffect (startScraping s)
       \<and> (list_all loopEvent evs \<longrightarrow>
            run lc (runEffect (startScraping s)) evs = Some (runEffect (startScraping s)))
       \<and> currentPage (runEffect (startScraping s)) = currentPage s
       \<and> charityData (runEffect (startScraping s)) = charityData s
       \<and> log (runEffect (startScraping s))
            = log s @ [''Using source URL: '' @ sourceUrl s, ''Starting scraper...'']"
proof -
  let ?t = "runEffect (startScraping s)"
  from assms have st: "step lc s Start = Some ?t" by (intro start_accepted) simp_all
  from assms have t: "?t = s\<lparr>scraperConfig := sourceUrl s, isRunning := True,
       log := log s @ [''Using source URL: '' @ sourceUrl s, ''Starting scraper...'']\<rparr>"
    by (intro start_at_limit) simp_all
  from assms have f: "isRunning ?t" "loop ?t = NoLoop" "\<not> isProcessing ?t"
    "1000 \<le> processedCount ?t" "currentPage ?t = currentPage s" "charityData ?t = charityData s"
    "log ?t = log s @ [''Using source URL: '' @ sourceUrl s, ''Starting scraper...'']"
    unfolding t by simp_all
  from f(3,4) have p: "processNextPage (capture ?t) ?t r = ?t"
    by (simp add: processNextPage_def begin_returns capture_def)
  have q: "run lc ?t evs = Some ?t" if "list_all loopEvent evs"
    using f(2,3,1,4) that by (rule run_loopEvents_idle)
  from st f p q show ?thesis by blast
qed

text \<open>
  The run that fills the batch with one page of 1000 records, then Start and further
  deliveries.
\<close>

theorem start_after_batch_limit_fetches_nothing_witness:
  "run compareCodeUnits (initialApp None)
       [Start, FetchSettles (Resolved (replicate 1000 sampleCharity) True)]
     = Some (processNextPage_resume firstClosure startedApp
         (Resolved (replicate 1000 sampleCharity) True))
   \<and> processedCount (processNextPage_resume firstClosure startedApp
         (Resolved (replicate 1000 sampleCharity) True)) = 1000
   \<and> \<not> isRunning (processNextPage_resume firstClosure startedApp
         (Resolved (replicate 1000 sampleCharity) True))
   \<and> \<not> isProcessing (processNextPage_resume firstClosure startedApp
         (Resolved (replicate 1000 sampleCharity) True))
   \<and> hasMorePages (processNextPage_resume firstClosure startedApp
         (Resolved (replicate 1000 sampleCharity) True))
   \<and> loop (processNextPage_resume firstClosure startedApp
         (Resolved (replicate 1000 sampleCharity) True)) = NoLoop
   \<and> run compareCodeUnits (processNextPage_resume firstClosure startedApp
         (Resolved (replicate 1000 sampleCharity) True))
       [Start, FetchSettles (Resolved [sampleCharity] True), TimerElapses,
        FetchSettles (Resolved [sampleCharity] True)]
     = Some (runEffect (startScraping (processNextPage_resume firstClosure startedApp
         (Resolved (replicate 1000 sampleCharity) True))))
   \<and> isRunning (runEffect (startScraping (processNextPage_resume firstClosure startedApp
         (Resolved (replicate 1000 sampleCharity) True))))
   \<and> currentPage (runEffect (startScraping (processNextPage_resume firstClosure startedApp
         (Resolved (replicate 1000 sampleCharity) True)))) = 2
   \<and> length (charityData (runEffect (startScraping (processNextPage_resume firstClosure startedApp
         (Resolved (replicate 1000 sampleCharity) True))))) = 1000"
proof -
  let ?s = "processNextPage_resume firstClosure startedApp
         (Resolved (replicate 1000 sampleCharity) True)"
  let ?evs = "[FetchSettles (Resolved [sampleCharity] True), TimerElapses,
        FetchSettles (Resolved [sampleCharity] True)]"
  have r: "run compareCodeUnits (initialApp None)
       [Start, FetchSettles (Resolved (replicate 1000 sampleCharity) True)] = Some ?s"
    by (subst run_first_page) simp
  have h: "processedCount ?s = 1000" "\<not> isRunning ?s" "\<not> isProcessing ?s" "hasMorePages ?s"
    "loop ?s = NoLoop" "currentPage ?s = 2" "length (charityData ?s) = 1000"
    by (simp_all add: resume_batch_full startedApp_fields)
  note t = start_after_batch_limit_fetches_nothing [OF h(1-5), of compareCodeUnits
      "Resolved [sampleCharity] True" ?evs]
  have le: "list_all loopEvent ?evs" by simp
  from t le have a: "step compareCodeUnits ?s Start = Some (runEffect (startScraping ?s))"
    and b: "run compareCodeUnits (runEffect (startScraping ?s)) ?evs
              = Some (runEffect (startScraping ?s))"
    and c: "isRunning (runEffect (startScraping ?s))"
    and d: "currentPage (runEffect (startScraping ?s)) = currentPage ?s"
    and e: "charityData (runEffect (startScraping ?s)) = charityData ?s"
    by blast+
  from a b have "run compareCodeUnits ?s (Start # ?evs) = Some (runEffect (startScraping ?s))"
    by simp
  with r h c show ?thesis unfolding d e by simp
qed


subsection \<open>Pages beyond the batch limit and tally consistency\<close>


lemma overfull_first_page:
  "run lc (initialApp None) [Start, FetchSettles (Resolved (replicate 1001 sampleCharity) True)]
     = Some (processNextPage_resume firstClosure startedApp
              (Resolved (replicate 1001 sampleCharity) True))
   \<and> 1000 < length (charityData (processNextPage_resume firstClosure startedApp
              (Resolved (replicate 1001 sampleCharity) True)))
   \<and> processedCount (processNextPage_resume firstClosure startedApp
              (Resolved (replicate 1001 sampleCharity) True)) = 1000"
  by (subst run_first_page) (simp add: resume_batch_full startedApp_fields)

text \<open>
  Claim C9. A page that carries the counter of its closure past 1000 is appended whole to
  the record store and counted whole in the tally (for a numeric tally and regions as the
  producers give them, each region's count grows by the page's records of that region),
  and only the counter is set to 1000; and there is a run from a fresh mount after which
  the record store holds more than 1000 records while \<open>processedCount\<close> is exactly 1000.
\<close>

theorem store_exceeds_batch_limit:
  "(seenCount c < 1000 \<and> 1000 < seenCount c + length cs \<longrightarrow>
       charityData (processNextPage_resume c s (Resolved cs hm)) = charityData s @ cs
     \<and> length (charityData (processNextPage_resume c s (Resolved cs hm)))
         = length (charityData s) + length cs
     \<and> states (processNextPage_resume c s (Resolved cs hm)) = countStates (states s) cs
     \<and> processedCount (processNextPage_resume c s (Resolved cs hm)) = 1000
     \<and> (regionsDerived cs \<and> numericTally (states s) \<longrightarrow>
          (\<forall>r. tallyCount (states (processNextPage_resume c s (Resolved cs hm))) r
                 = tallyCount (states s) r + recordsInRegion cs r)))
   \<and> mount None = Some (initialApp None)
   \<and> (\<exists>evs t. run lc (initialApp None) evs = Some t
          \<and> 1000 < length (charityData t) \<and> processedCount t = 1000)"
proof -
  have a: "charityData (processNextPage_resume c s (Resolved cs hm)) = charityData s @ cs
     \<and> length (charityData (processNextPage_resume c s (Resolved cs hm)))
         = length (charityData s) + length cs
     \<and> states (processNextPage_resume c s (Resolved cs hm)) = countStates (states s) cs
     \<and> processedCount (processNextPage_resume c s (Resolved cs hm)) = 1000
     \<and> (regionsDerived cs \<and> numericTally (states s) \<longrightarrow>
          (\<forall>r. tallyCount (states (processNextPage_resume c s (Resolved cs hm))) r
                 = tallyCount (states s) r + recordsInRegion cs r))"
    if "seenCount c < 1000" "1000 < seenCount c + length cs"
  proof -
    from that have "cs \<noteq> []" "1000 \<le> seenCount c + length cs" by auto
    then show ?thesis using countStates_derived [of cs "states s"]
      by (simp add: resume_batch_full)
  qed
  from overfull_first_page [of lc]
  have b: "\<exists>evs t. run lc (initialApp None) evs = Some t
          \<and> 1000 < length (charityData t) \<and> processedCount t = 1000" by blast
  from a b mount_None show ?thesis by blast
qed

text \<open>
  A first page of 1001 records.
\<close>

theorem store_exceeds_batch_limit_witness:
  "seenCount firstClosure < 1000
   \<and> 1000 < seenCount firstClosure + length (replicate 1001 sampleCharity)
   \<and> regionsDerived (replicate 1001 sampleCharity) \<and> numericTally (states startedApp)
   \<and> run compareCodeUnits (initialApp None)
        [Start, FetchSettles (Resolved (replicate 1001 sampleCharity) True)]
       = Some (processNextPage_resume firstClosure startedApp
                (Resolved (replicate 1001 sampleCharity) True))
   \<and> length (charityData (processNextPage_resume firstClosure startedApp
         (Resolved (replicate 1001 sampleCharity) True))) = 1001
   \<and> processedCount (processNextPage_resume firstClosure startedApp
         (Resolved (replicate 1001 sampleCharity) True)) = 1000
   \<and> tallyCount (states (processNextPage_resume firstClosure startedApp
         (Resolved (replicate 1001 sampleCharity) True))) ''IL'' = 1001"
proof -
  have rc: "regionCode (state sampleCharity)" by code_simp
  have h: "seenCount firstClosure < 1000"
    "1000 < seenCount firstClosure + length (replicate 1001 sampleCharity)"
    "regionsDerived (replicate 1001 sampleCharity)" "numericTally (states startedApp)"
    using rc by (simp_all add: regionsDerived_def list_all_iff numericTally_def startedApp_fields)
  have r: "recordsInRegion (replicate 1001 sampleCharity) ''IL'' = 1001"
    by (simp add: recordsInRegion_def sampleCharity_def)
  note t = store_exceeds_batch_limit [of firstClosure "replicate 1001 sampleCharity" startedApp
      True compareCodeUnits]
  from t h have a: "length (charityData (processNextPage_resume firstClosure startedApp
         (Resolved (replicate 1001 sampleCharity) True)))
       = length (charityData startedApp) + length (replicate 1001 sampleCharity)"
    and b: "processedCount (processNextPage_resume firstClosure startedApp
         (Resolved (replicate 1001 sampleCharity) True)) = 1000"
    and c: "tallyCount (states (processNextPage_resume firstClosure startedApp
         (Resolved (replicate 1001 sampleCharity) True))) ''IL''
       = tallyCount (states startedApp) ''IL'' + recordsInRegion (replicate 1001 sampleCharity) ''IL''"
    by blast+
  from a have a': "length (charityData (processNextPage_resume firstClosure startedApp
         (Resolved (replicate 1001 sampleCharity) True))) = 1001"
    by (simp add: startedApp_fields)
  from c r have c': "tallyCount (states (processNextPage_resume firstClosure startedApp
         (Resolved (replicate 1001 sampleCharity) True))) ''IL'' = 1001"
    by (simp add: startedApp_fields tallyCount_def)
  from overfull_first_page [of compareCodeUnits] h a' b c' show ?thesis by blast
qed

text \<open>
  Claim C6. In every state reached from a mount by any sequence of events (pages merged,
  resets, reloads that restore from local storage), where the records of the snapshot and
  of the pages carry regions as the producers give them, the tally's total is the number
  of stored records, every value of the tally is a count, and each region's count is the
  number of stored records whose region equals it. On mount the records come from local
  storage and the tally is counted from them; a confirmed reset empties both. The producers
  of the repository give such regions: \<open>scrapeWebpage\<close> through \<open>extractState\<close>, the
  demonstration records, and \<open>statesList\<close>.
\<close>

theorem tally_consistency:
  "(storedDerived ls \<and> list_all eventDerived evs \<and> mount ls = Some s0
      \<and> run lc s0 evs = Some s \<longrightarrow>
        tallyTotal (states s) = length (charityData s)
      \<and> (\<forall>r. tallyCount (states s) r = recordsInRegion (charityData s) r)
      \<and> numericTally (states s))
   \<and> (mount ls = Some s0 \<longrightarrow> (\<exists>t. run lc s0 evs = Some t))
   \<and> (mount (Some (Parsed d)) = Some t \<longrightarrow>
        charityData t = d \<and> states t = countStates Map.empty d)
   \<and> (\<exists>t. mount (Some (Parsed d)) = Some t)
   \<and> states (resetScraper True u) = Map.empty \<and> charityData (resetScraper True u) = []
   \<and> (scrapedCharity nm addr site = Some c \<longrightarrow> regionCode (state c))
   \<and> regionsDerived realCharityData
   \<and> list_all regionCode statesList"
proof -
  have a: "tallyTotal (states s) = length (charityData s)
      \<and> (\<forall>r. tallyCount (states s) r = recordsInRegion (charityData s) r)
      \<and> numericTally (states s)"
    if "storedDerived ls" "list_all eventDerived evs" "mount ls = Some s0" "run lc s0 evs = Some s"
  proof -
    from that(1,3) have "tallyOk s0" by (rule tallyOk_mount)
    from this that(2,4) have "tallyOk s" by (rule tallyOk_run)
    then have "states s = tallyOf (charityData s)" by (simp add: tallyOk_def)
    then show ?thesis by (simp add: tallyTotal_tallyOf)
  qed
  have b: "charityData t = d \<and> states t = countStates Map.empty d"
    if "mount (Some (Parsed d)) = Some t"
    using that
    by (auto simp: mount_def loadSaved_def initialApp_def addLogMessage_def saveData_def
        split: if_splits)
  have e: "\<exists>t. mount (Some (Parsed d)) = Some t" using mount_Some_iff by blast
  have g: "\<exists>t. run lc s0 evs = Some t" if "mount ls = Some s0"
  proof -
    from that have "controllerOk s0" by (rule controllerOk_mount)
    from run_total_ok [OF this, of lc evs] show ?thesis by blast
  qed
  have r: "states (resetScraper True u) = Map.empty" "charityData (resetScraper True u) = []"
    by (simp_all add: ctrl_defs)
  from a b e g r regionCode_scraped regionsDerived_realCharityData regionCode_statesList
  show ?thesis by blast
qed

text \<open>
  Two stored records of region \<open>IL\<close>.
\<close>

theorem tally_consistency_witness:
  "storedDerived None
   \<and> list_all eventDerived [Start, FetchSettles (Resolved [sampleCharity, sampleCharity] True)]
   \<and> mount None = Some (initialApp None)
   \<and> run compareCodeUnits (initialApp None)
        [Start, FetchSettles (Resolved [sampleCharity, sampleCharity] True)]
       = Some (processNextPage_resume firstClosure startedApp
                (Resolved [sampleCharity, sampleCharity] True))
   \<and> charityData (processNextPage_resume firstClosure startedApp
                (Resolved [sampleCharity, sampleCharity] True)) = [sampleCharity, sampleCharity]
   \<and> tallyTotal (states (processNextPage_resume firstClosure startedApp
                (Resolved [sampleCharity, sampleCharity] True))) = 2
   \<and> tallyCount (states (processNextPage_resume firstClosure startedApp
                (Resolved [sampleCharity, sampleCharity] True))) ''IL'' = 2
   \<and> tallyCount (states (processNextPage_resume firstClosure startedApp
                (Resolved [sampleCharity, sampleCharity] True))) ''TX'' = 0"
proof -
  let ?s = "processNextPage_resume firstClosure startedApp
                (Resolved [sampleCharity, sampleCharity] True)"
  have rc: "regionCode (state sampleCharity)" by code_simp
  have h: "storedDerived None"
    "list_all eventDerived [Start, FetchSettles (Resolved [sampleCharity, sampleCharity] True)]"
    using rc by (simp_all add: storedDerived_def)
  have r: "run compareCodeUnits (initialApp None)
        [Start, FetchSettles (Resolved [sampleCharity, sampleCharity] True)] = Some ?s"
    by (subst run_first_page) simp
  have cd: "charityData ?s = [sampleCharity, sampleCharity]"
    by (simp add: resume_continues startedApp_fields)
  note t = tally_consistency [of None
      "[Start, FetchSettles (Resolved [sampleCharity, sampleCharity] True)]" "initialApp None"
      compareCodeUnits ?s]
  from t h mount_None r have a: "tallyTotal (states ?s) = length (charityData ?s)"
    and b: "\<forall>r. tallyCount (states ?s) r = recordsInRegion (charityData ?s) r"
    by blast+
  from a have a': "tallyTotal (states ?s) = 2" unfolding cd by simp
  from b have b': "tallyCount (states ?s) ''IL'' = 2" "tallyCount (states ?s) ''TX'' = 0"
    unfolding cd by (simp_all add: recordsInRegion_def sampleCharity_def)
  from h mount_None r cd a' b' show ?thesis by blast
qed

subsection \<open>Reading the export back\<close>

lemma joinWith_Cons: "joinWith sep (x # xs) = x @ concat (map (\<lambda>y. sep @ y) xs)"
  by (induction xs arbitrary: x) simp_all

lemma dquote_not_sep [simp]: "dquote \<noteq> CHR '',''" "dquote \<noteq> newline" "newline \<noteq> CHR '',''"
  "CHR '','' \<noteq> dquote" "newline \<noteq> dquote" "CHR '','' \<noteq> newline"
  by (simp_all add: dquote_def newline_def)

lemma escapeQuotes_Nil [simp]: "escapeQuotes [] = []"
  by (simp add: escapeQuotes_def)

lemma escapeQuotes_Cons:
  "escapeQuotes (c # x) = (if c = dquote then [dquote, dquote] else [c]) @ escapeQuotes x"
  by (simp add: escapeQuotes_def)

lemma csvContent_rows:
  "csvContent cs = joinWith '','' headers @ concat (map (\<lambda>c. newline # csvRow c) cs)"
  by (simp add: csvContent_def joinWith_Cons o_def)

text \<open>Inside quotes, an escaped field followed by a quote closes the field.\<close>

lemma scan_escaped:
  "scanCsv InQuotes f row rows (escapeQuotes x @ dquote # rest)
     = scanCsv QuoteSeen (f @ x) row rows rest"
  if "rest = [] \<or> hd rest \<noteq> dquote"
  using that
proof (induction x arbitrary: f)
  case Nil
  then show ?case by (cases rest) simp_all
next
  case (Cons c x)
  from Cons.prems have ih: "scanCsv InQuotes g row rows (escapeQuotes x @ dquote # rest)
     = scanCsv QuoteSeen (g @ x) row rows rest" for g
    by (rule Cons.IH)
  show ?case
  proof (cases "c = dquote")
    case True
    then show ?thesis by (simp add: escapeQuotes_Cons ih)
  next
    case False
    then show ?thesis by (simp add: escapeQuotes_Cons ih)
  qed
qed

lemma scan_plain:
  "scanCsv InQuotes f row rows (x @ dquote # rest) = scanCsv QuoteSeen (f @ x) row rows rest"
  if "dquote \<notin> set x"
  using that by (induction x arbitrary: f) auto

lemma scan_quoted_escaped:
  "scanCsv FieldStart f row rows (quoted (escapeQuotes x) @ rest)
     = scanCsv QuoteSeen x row rows rest"
  if "rest = [] \<or> hd rest \<noteq> dquote"
  using that scan_escaped [of rest "[]" row rows x] by (simp add: quoted_def)

lemma scan_quoted_plain:
  "scanCsv FieldStart f row rows (quoted x @ rest) = scanCsv QuoteSeen x row rows rest"
  if "dquote \<notin> set x"
  using that scan_plain [of x "[]" row rows rest] by (simp add: quoted_def)

lemma scan_comma:
  "scanCsv QuoteSeen f row rows (CHR '','' # rest) = scanCsv FieldStart [] (row @ [f]) rows rest"
  by simp

lemma scan_newline:
  "scanCsv QuoteSeen f row rows (newline # rest) = scanCsv FieldStart [] [] (rows @ [row @ [f]]) rest"
  by simp

lemma emailField:
  "(case email c of None \<Rightarrow> [] | Some e \<Rightarrow> escapeQuotes e)
     = escapeQuotes (case email c of None \<Rightarrow> [] | Some e \<Rightarrow> e)"
  by (simp add: escapeQuotes_def split: option.splits)

lemma scan_row:
  assumes "dquote \<notin> set (state c)" "rest = [] \<or> hd rest \<noteq> dquote"
  shows "scanCsv FieldStart f [] rows (csvRow c @ rest)
       = scanCsv QuoteSeen (state c) [name c, address c, website c,
            (case email c of None \<Rightarrow> [] | Some e \<Rightarrow> e)] rows rest"
proof -
  have "csvRow c @ rest =
     quoted (escapeQuotes (name c)) @ CHR '','' #
     quoted (escapeQuotes (address c)) @ CHR '','' #
     quoted (escapeQuotes (website c)) @ CHR '','' #
     quoted (escapeQuotes (case email c of None \<Rightarrow> [] | Some e \<Rightarrow> e)) @ CHR '','' #
     quoted (state c) @ rest"
    by (simp add: csvRow_def emailField)
  then show ?thesis
    using assms by (simp add: scan_quoted_escaped scan_quoted_plain)
qed

lemma scan_rows:
  assumes "\<forall>c\<in>set cs. dquote \<notin> set (state c)"
  shows "scanCsv QuoteSeen f row rows (concat (map (\<lambda>c. newline # csvRow c) cs))
       = Some (rows @ [row @ [f]] @ map fieldsOf cs)"
  using assms
proof (induction cs arbitrary: f row rows)
  case Nil
  then show ?case by simp
next
  case (Cons c cs)
  let ?rest = "concat (map (\<lambda>c. newline # csvRow c) cs)"
  have r: "?rest = [] \<or> hd ?rest \<noteq> dquote" by (cases cs) simp_all
  from Cons.prems have q: "dquote \<notin> set (state c)" "\<forall>c\<in>set cs. dquote \<notin> set (state c)"
    by simp_all
  have "scanCsv QuoteSeen f row rows (concat (map (\<lambda>c. newline # csvRow c) (c # cs)))
      = scanCsv FieldStart [] [] (rows @ [row @ [f]]) (csvRow c @ ?rest)" by simp
  also have "\<dots> = scanCsv QuoteSeen (state c) [name c, address c, website c,
            (case email c of None \<Rightarrow> [] | Some e \<Rightarrow> e)] (rows @ [row @ [f]]) ?rest"
    using q(1) r by (rule scan_row)
  also have "\<dots> = Some ((rows @ [row @ [f]]) @ [[name c, address c, website c,
            (case email c of None \<Rightarrow> [] | Some e \<Rightarrow> e)] @ [state c]] @ map fieldsOf cs)"
    using q(2) by (rule Cons.IH)
  finally show ?case by (simp add: fieldsOf_def)
qed

lemma scan_header:
  "scanCsv FieldStart [] [] [] (joinWith '','' headers @ newline # rest)
     = scanCsv FieldStart [] [] [headers] rest"
  by (simp add: headers_def newline_def dquote_def)

lemma parse_csvContent:
  assumes "cs \<noteq> []" "\<forall>c\<in>set cs. dquote \<notin> set (state c)"
  shows "parseDelimited (csvContent cs) = Some (headers # map fieldsOf cs)"
proof -
  from assms(1) obtain c cs' where cs: "cs = c # cs'" by (cases cs) auto
  let ?rest = "concat (map (\<lambda>c. newline # csvRow c) cs')"
  have r: "?rest = [] \<or> hd ?rest \<noteq> dquote" by (cases cs') simp_all
  from assms(2) cs have q: "dquote \<notin> set (state c)" "\<forall>c\<in>set cs'. dquote \<notin> set (state c)"
    by simp_all
  have "csvContent cs = joinWith '','' headers @ newline # csvRow c @ ?rest"
    by (simp add: csvContent_rows cs)
  then have "parseDelimited (csvContent cs) = scanCsv FieldStart [] [] [headers] (csvRow c @ ?rest)"
    by (simp add: parseDelimited_def scan_header)
  also have "\<dots> = scanCsv QuoteSeen (state c) [name c, address c, website c,
            (case email c of None \<Rightarrow> [] | Some e \<Rightarrow> e)] [headers] ?rest"
    using q(1) r by (rule scan_row)
  also have "\<dots> = Some ([headers] @ [[name c, address c, website c,
            (case email c of None \<Rightarrow> [] | Some e \<Rightarrow> e)] @ [state c]] @ map fieldsOf cs')"
    using q(2) by (rule scan_rows)
  finally show ?thesis by (simp add: fieldsOf_def cs)
qed

lemma mset_insertByName: "mset (insertByName lc x ys) = add_mset x (mset ys)"
  by (induction ys) simp_all

lemma mset_sortByName: "mset (sortByName lc cs) = mset cs"
  unfolding sortByName_def by (induction cs) (simp_all add: mset_insertByName)

lemma set_sortByName: "set (sortByName lc cs) = set cs"
  using mset_sortByName [of lc cs] by (metis set_mset_mset)

lemma sortByName_Nil_iff: "sortByName lc cs = [] \<longleftrightarrow> cs = []"
  using mset_sortByName [of lc cs] by (metis mset_zero_iff)

subsection \<open>Export round trip\<close>

lemma exportToCSV_text:
  "charityData s \<noteq> [] \<Longrightarrow>
     snd (exportToCSV lc s) = Some (csvContent (sortByName lc (charityData s)))"
  by (simp add: exportToCSV_def Let_def)

lemma exportToCSV_data: "charityData (fst (exportToCSV lc s)) = charityData s"
  by (simp add: exportToCSV_def Let_def addLogMessage_def)

lemma exportToCSV_twice: "snd (exportToCSV lc (fst (exportToCSV lc s))) = snd (exportToCSV lc s)"
  by (simp add: exportToCSV_def Let_def addLogMessage_def)

lemma regionsDerived_no_dquote:
  "regionsDerived cs \<Longrightarrow> \<forall>c\<in>set cs. dquote \<notin> set (state c)"
  by (auto simp: regionsDerived_def list_all_iff dest: regionCode_no_dquote)

text \<open>
  Claim C5. For every non-empty record store with regions as the producers give them,
  whatever the names, addresses, websites and emails contain, the exported text read back
  with double-quote quoting and doubled-quote escaping is the header row followed by the
  field values of the records in export order, which is a rearrangement of the store; the
  export leaves the record store as it is, and a second export gives the same text. Every
  store reached from a mount has such regions when the snapshot and the pages do, and the
  producers of the repository give them.
\<close>

theorem export_round_trip:
  "(charityData s \<noteq> [] \<and> regionsDerived (charityData s) \<longrightarrow>
      snd (exportToCSV lc s) = Some (csvContent (sortByName lc (charityData s)))
    \<and> parseDelimited (csvContent (sortByName lc (charityData s)))
        = Some (headers # map fieldsOf (sortByName lc (charityData s)))
    \<and> mset (sortByName lc (charityData s)) = mset (charityData s))
   \<and> charityData (fst (exportToCSV lc s)) = charityData s
   \<and> snd (exportToCSV lc (fst (exportToCSV lc s))) = snd (exportToCSV lc s)
   \<and> (storedDerived ls \<and> list_all eventDerived evs \<and> mount ls = Some s0
        \<and> run lc s0 evs = Some t \<longrightarrow> regionsDerived (charityData t))
   \<and> (scrapedCharity nm addr site = Some c \<longrightarrow> regionCode (state c))
   \<and> regionsDerived realCharityData
   \<and> list_all regionCode statesList"
proof -
  have a: "parseDelimited (csvContent (sortByName lc (charityData s)))
        = Some (headers # map fieldsOf (sortByName lc (charityData s)))"
    if "charityData s \<noteq> []" "regionsDerived (charityData s)"
  proof (rule parse_csvContent)
    from that(1) show "sortByName lc (charityData s) \<noteq> []" by (simp add: sortByName_Nil_iff)
    from that(2) show "\<forall>c\<in>set (sortByName lc (charityData s)). dquote \<notin> set (state c)"
      by (simp add: set_sortByName regionsDerived_no_dquote)
  qed
  have b: "regionsDerived (charityData t)"
    if "storedDerived ls" "list_all eventDerived evs" "mount ls = Some s0" "run lc s0 evs = Some t"
  proof -
    from that(1,3) have "tallyOk s0" by (rule tallyOk_mount)
    from this that(2,4) have "tallyOk t" by (rule tallyOk_run)
    then show ?thesis by (simp add: tallyOk_def)
  qed
  from a b show ?thesis
    by (simp add: exportToCSV_text exportToCSV_data exportToCSV_twice mset_sortByName
        regionCode_scraped regionsDerived_realCharityData regionCode_statesList)
qed

lemma sort_two: "sortByName compareCodeUnits [sampleCharity, quotedNameCharity]
    = [quotedNameCharity, sampleCharity]"
  by (simp add: sortByName_def sampleCharity_def quotedNameCharity_def charCode_def)

text \<open>
  A store of two records, one with double quotes and commas in its name and address: the
  text reads back as the header and the two records' fields, sorted by name.
\<close>

theorem export_round_trip_witness:
  "run compareCodeUnits (initialApp None)
       [Start, FetchSettles (Resolved [sampleCharity, quotedNameCharity] True)]
     = Some (processNextPage_resume firstClosure startedApp
               (Resolved [sampleCharity, quotedNameCharity] True))
   \<and> charityData (processNextPage_resume firstClosure startedApp
               (Resolved [sampleCharity, quotedNameCharity] True)) \<noteq> []
   \<and> regionsDerived (charityData (processNextPage_resume firstClosure startedApp
               (Resolved [sampleCharity, quotedNameCharity] True)))
   \<and> dquote \<in> set (name quotedNameCharity) \<and> CHR '','' \<in> set (name quotedNameCharity)
   \<and> dquote \<in> set (address quotedNameCharity) \<and> CHR '','' \<in> set (address quotedNameCharity)
   \<and> Option.bind (snd (exportToCSV compareCodeUnits (processNextPage_resume firstClosure startedApp
               (Resolved [sampleCharity, quotedNameCharity] True)))) parseDelimited
       = Some [headers, fieldsOf quotedNameCharity, fieldsOf sampleCharity]"
proof -
  let ?s = "processNextPage_resume firstClosure startedApp
               (Resolved [sampleCharity, quotedNameCharity] True)"
  have r: "run compareCodeUnits (initialApp None)
       [Start, FetchSettles (Resolved [sampleCharity, quotedNameCharity] True)] = Some ?s"
    by (subst run_first_page) simp
  have cd: "charityData ?s = [sampleCharity, quotedNameCharity]"
    by (simp add: resume_continues startedApp_fields)
  have rc: "regionCode (state sampleCharity)" "regionCode (state quotedNameCharity)"
    by code_simp+
  have h1: "charityData ?s \<noteq> []" unfolding cd by simp
  have h2: "regionsDerived (charityData ?s)" unfolding cd using rc by simp
  have q: "dquote \<in> set (name quotedNameCharity)" "CHR '','' \<in> set (name quotedNameCharity)"
    "dquote \<in> set (address quotedNameCharity)" "CHR '','' \<in> set (address quotedNameCharity)"
    by (simp_all add: quotedNameCharity_def)
  note t = export_round_trip [of ?s compareCodeUnits]
  from t h1 h2 have a: "snd (exportToCSV compareCodeUnits ?s)
      = Some (csvContent (sortByName compareCodeUnits (charityData ?s)))"
    and b: "parseDelimited (csvContent (sortByName compareCodeUnits (charityData ?s)))
        = Some (headers # map fieldsOf (sortByName compareCodeUnits (charityData ?s)))"
    by blast+
  have "Option.bind (snd (exportToCSV compareCodeUnits ?s)) parseDelimited
       = Some [headers, fieldsOf quotedNameCharity, fieldsOf sampleCharity]"
    unfolding a using b unfolding cd sort_two by simp
  with r h1 h2 q show ?thesis by blast
qed

end
